theory Spec2Isabelle
  imports Complex_Main "HOL-Library.Word"
begin

section \<open>JavaScript strings\<close>

text \<open>
  A JavaScript string is a sequence of UTF-16 code units.  The Arabic-Indic digits
  U+0660 .. U+0669 lie in the basic plane, so each of them is one code unit.
  \<open>of_ascii\<close> reads an ASCII literal of the source as such a string.
\<close>

type_synonym jschar = "16 word"
type_synonym jsstring = "jschar list"

definition of_ascii :: "string \<Rightarrow> jsstring" where
  "of_ascii s = map (\<lambda>c. of_nat (of_char c)) s"

section \<open>Arabic digit formatter (\<open>convertToArabicDigits\<close>, index.js 140-143)\<close>

text \<open>
  \<^verbatim>\<open>const arabicDigits = [U+0660, ..., U+0669];\<close>
  \<^verbatim>\<open>return num.toString().replace(/\d/g, match => arabicDigits[match]);\<close>

  The regular expression \<^verbatim>\<open>\d\<close> matches exactly the code units of \<^verbatim>\<open>0\<close> .. \<^verbatim>\<open>9\<close>; the
  matched one-character string \<^verbatim>\<open>"d"\<close> is used as the property key \<open>d\<close> of the array.
  Every other code unit is copied.
\<close>

definition arabicDigits :: "jschar list" where
  "arabicDigits = [0x660, 0x661, 0x662, 0x663, 0x664, 0x665, 0x666, 0x667, 0x668, 0x669]"

definition westernDigits :: "jschar list" where
  "westernDigits = of_ascii ''0123456789''"

definition isDecimalDigit :: "jschar \<Rightarrow> bool" where
  "isDecimalDigit c = (c \<in> set westernDigits)"

definition digitValue :: "jschar \<Rightarrow> nat" where
  "digitValue c = (case map_of (zip westernDigits [0 ..< 10]) c of Some d \<Rightarrow> d | None \<Rightarrow> 0)"

definition replaceDigit :: "jschar \<Rightarrow> jschar" where
  "replaceDigit c = (if isDecimalDigit c then arabicDigits ! digitValue c else c)"

definition convertToArabicDigits :: "jsstring \<Rightarrow> jsstring" where
  "convertToArabicDigits num = map replaceDigit num"

text \<open>
  The inverse glyph table of the specification: each Arabic-Indic digit is mapped back to
  the Western digit of the same value, every other code unit is kept.
\<close>

definition inverseGlyph :: "jschar \<Rightarrow> jschar" where
  "inverseGlyph c = (case map_of (zip arabicDigits westernDigits) c of Some d \<Rightarrow> d | None \<Rightarrow> c)"

definition fromArabicDigits :: "jsstring \<Rightarrow> jsstring" where
  "fromArabicDigits s = map inverseGlyph s"

section \<open>Product records (products.json)\<close>

text \<open>
  A property of a JSON object may be missing (\<open>Undefined\<close>), \<^verbatim>\<open>null\<close> or hold a value.
  Prices are JavaScript numbers read by \<^verbatim>\<open>JSON.parse\<close>; a finite number is taken at its
  exact rational value, on which \<^verbatim>\<open>===\<close> is equality (\<open>+0\<close> and \<open>-0\<close> are equal,
  and \<^verbatim>\<open>JSON.parse\<close> never yields \<open>NaN\<close>).  The other properties that an object of the
  file may have are the extension of the record.
\<close>

datatype 'a optional = Undefined | Null | Val 'a

record product =
  productCode :: jsstring
  variation_suffix :: "jsstring optional"
  current_price :: rat
  previous_price :: "rat optional"

text \<open>Truthiness of an optional string: missing, \<^verbatim>\<open>null\<close> and the empty string are falsy.\<close>

definition truthy :: "jsstring optional \<Rightarrow> bool" where
  "truthy v = (case v of Val s \<Rightarrow> s \<noteq> [] | _ \<Rightarrow> False)"

definition valueOf :: "jsstring optional \<Rightarrow> jsstring" where
  "valueOf v = (case v of Val s \<Rightarrow> s | _ \<Rightarrow> [])"

section \<open>Selecting the products to process (index.js 146-151)\<close>

text \<open>\<^verbatim>\<open>previous_price !== current_price\<close>, the right operand being a number.\<close>

definition strictNotEqual :: "rat optional \<Rightarrow> rat \<Rightarrow> bool" where
  "strictNotEqual a b = (case a of Val v \<Rightarrow> v \<noteq> b | _ \<Rightarrow> True)"

definition needsImage :: "'a product_scheme \<Rightarrow> bool" where
  "needsImage p = (previous_price p = Null \<or> previous_price p = Undefined
     \<or> strictNotEqual (previous_price p) (current_price p))"

definition productsToProcess :: "'a product_scheme list \<Rightarrow> 'a product_scheme list" where
  "productsToProcess productsData = filter needsImage productsData"

section \<open>Rewriting the store (index.js 288-293)\<close>

text \<open>\<^verbatim>\<open>productsData.map(product => ({...product, previous_price: product.current_price}))\<close>\<close>

definition updatedProducts :: "'a product_scheme list \<Rightarrow> 'a product_scheme list" where
  "updatedProducts productsData =
     map (\<lambda>p. p\<lparr>previous_price := Val (current_price p)\<rparr>) productsData"

section \<open>Work partitioner (\<open>chunkArray\<close>, index.js 205-219)\<close>

record workItem =
  index :: int
  product :: product

text \<open>\<^verbatim>\<open>Array.prototype.findIndex\<close>: the first position whose element satisfies the test, or -1.\<close>

fun findIndexFrom :: "('a \<Rightarrow> bool) \<Rightarrow> nat \<Rightarrow> 'a list \<Rightarrow> int" where
  "findIndexFrom P k [] = - 1"
| "findIndexFrom P k (x # xs) = (if P x then int k else findIndexFrom P (Suc k) xs)"

definition findIndex :: "('a \<Rightarrow> bool) \<Rightarrow> 'a list \<Rightarrow> int" where
  "findIndex P xs = findIndexFrom P 0 xs"

text \<open>
  The test of the search, for the item being placed:
  \<^verbatim>\<open>p.productCode === item.productCode && (p.variation_suffix === item.variation_suffix ||\<close>
  \<^verbatim>\<open>(!p.variation_suffix && !item.variation_suffix))\<close>
\<close>

definition matchesItem :: "product \<Rightarrow> product \<Rightarrow> bool" where
  "matchesItem item p = (productCode p = productCode item
     \<and> (variation_suffix p = variation_suffix item
          \<or> (\<not> truthy (variation_suffix p) \<and> \<not> truthy (variation_suffix item))))"

datatype error = TypeError

text \<open>
  The \<^verbatim>\<open>forEach\<close> loop: the item at position \<open>i\<close> is pushed on the group \<open>i mod chunkCount\<close>.
\<close>

fun chunkLoop ::
  "product list \<Rightarrow> nat \<Rightarrow> nat \<Rightarrow> product list \<Rightarrow> workItem list list \<Rightarrow> workItem list list" where
  "chunkLoop productsData chunkCount i [] chunks = chunks"
| "chunkLoop productsData chunkCount i (item # rest) chunks =
     chunkLoop productsData chunkCount (Suc i) rest
       (chunks[i mod chunkCount := chunks ! (i mod chunkCount) @
          [\<lparr>index = findIndex (matchesItem item) productsData, product = item\<rparr>]])"

text \<open>
  With \<open>chunkCount = 0\<close> there is no group: \<^verbatim>\<open>index % 0\<close> is \<open>NaN\<close>, \<^verbatim>\<open>chunks[NaN]\<close> is
  undefined and the \<^verbatim>\<open>push\<close> on it throws, at the first item.
\<close>

definition chunkArray :: "product list \<Rightarrow> product list \<Rightarrow> nat \<Rightarrow> error + workItem list list" where
  "chunkArray productsData array chunkCount =
     (if chunkCount = 0 \<and> array \<noteq> [] then Inl TypeError
      else Inr (chunkLoop productsData chunkCount 0 array (replicate chunkCount [])))"

text \<open>
  Re-merging groups by round-robin, as the specification words it: take the first item of
  every group that still has one, in group order, then the second items, and so on.
\<close>

definition roundRobinMerge :: "'a list list \<Rightarrow> 'a list" where
  "roundRobinMerge groups = concat (transpose groups)"

section \<open>Page server (index.js 165-190)\<close>

subsection \<open>\<open>parseInt\<close> without a radix\<close>

text \<open>
  The white space that \<^verbatim>\<open>parseInt\<close> skips: the white space and line terminator code
  points of ECMAScript.
\<close>

definition whiteSpaceChars :: "jschar list" where
  "whiteSpaceChars = [0x9, 0xA, 0xB, 0xC, 0xD, 0x20, 0xA0, 0x1680, 0x2000, 0x2001, 0x2002,
     0x2003, 0x2004, 0x2005, 0x2006, 0x2007, 0x2008, 0x2009, 0x200A, 0x2028, 0x2029, 0x202F,
     0x205F, 0x3000, 0xFEFF]"

definition isWhiteSpace :: "jschar \<Rightarrow> bool" where
  "isWhiteSpace c = (c \<in> set whiteSpaceChars)"

definition radixDigitTable :: "(jschar \<times> nat) list" where
  "radixDigitTable = zip (of_ascii ''0123456789abcdefABCDEF'') ([0 ..< 16] @ [10 ..< 16])"

definition radixDigit :: "nat \<Rightarrow> jschar \<Rightarrow> nat option" where
  "radixDigit R c =
     (case map_of radixDigitTable c of
        Some d \<Rightarrow> if d < R then Some d else None
      | None \<Rightarrow> None)"

definition radixValue :: "nat \<Rightarrow> jsstring \<Rightarrow> nat" where
  "radixValue R Z = foldl (\<lambda>a c. a * R + the (radixDigit R c)) 0 Z"

text \<open>
  After the white space and a sign, a prefix \<^verbatim>\<open>0x\<close> or \<^verbatim>\<open>0X\<close> selects radix 16 and is
  dropped; the digits of the radix that follow are read, up to the first other code unit.
  The result is \<open>None\<close> for \<open>NaN\<close>, and otherwise the integer that the digits denote, before
  it is rounded to a number: the route below only compares it with 0 and with the length of
  an array, and uses it as an index when it is below that length, where the rounding
  changes nothing.  \<open>-0\<close> is \<open>0\<close>.
\<close>

definition hasHexPrefix :: "jsstring \<Rightarrow> bool" where
  "hasHexPrefix S = (2 \<le> length S \<and> (take 2 S = of_ascii ''0x'' \<or> take 2 S = of_ascii ''0X''))"

definition parseInt :: "jsstring \<Rightarrow> int option" where
  "parseInt string =
     (let S = dropWhile isWhiteSpace string;
          sign = (if S \<noteq> [] \<and> hd S = 0x2D then - 1 else 1 :: int);
          S1 = (if S \<noteq> [] \<and> (hd S = 0x2B \<or> hd S = 0x2D) then tl S else S);
          R = (if hasHexPrefix S1 then 16 else 10);
          S2 = (if hasHexPrefix S1 then drop 2 S1 else S1);
          Z = takeWhile (\<lambda>c. radixDigit R c \<noteq> None) S2
      in if Z = [] then None else Some (sign * int (radixValue R Z)))"

subsection \<open>\<open>Number.prototype.toFixed\<close> with two fraction digits\<close>

function decimalDigits :: "nat \<Rightarrow> jsstring" where
  "decimalDigits n =
     (if n < 10 then [westernDigits ! n]
      else decimalDigits (n div 10) @ [westernDigits ! (n mod 10)])"
  by pat_completeness auto
termination
  by (relation "measure (\<lambda>n. n)") auto

declare decimalDigits.simps [simp del]

text \<open>
  \<open>n\<close> is the integer nearest to \<open>100 x\<close>, the larger one of two.  Its digits are padded
  with zeros to three at least and the full stop is put before the last two.  A number of
  magnitude \<open>10^21\<close> or more is written by \<^verbatim>\<open>Number::toString\<close> instead, which is given as
  \<open>numberToString\<close>.
\<close>

definition toFixed2 :: "(rat \<Rightarrow> jsstring) \<Rightarrow> rat \<Rightarrow> jsstring" where
  "toFixed2 numberToString x0 =
     (let s = (if x0 < 0 then of_ascii ''-'' else []);
          x = (if x0 < 0 then - x0 else x0)
      in if 10 ^ 21 \<le> x then s @ numberToString x
         else
           let n = nat \<lfloor>x * 100 + 1 / 2\<rfloor>;
               m = decimalDigits n;
               k = length m;
               m' = (if k \<le> 2 then replicate (3 - k) (0x30 :: jschar) @ m else m);
               k' = (if k \<le> 2 then 3 else k);
               a = take (k' - 2) m';
               b = drop (k' - 2) m'
           in s @ a @ of_ascii ''.'' @ b)"

subsection \<open>The template and the route\<close>

text \<open>
  The template of index.js 45-137, cut at its two output tags: the text before the tag of
  the image address, the text between the tags, and the text after the tag of the price.
\<close>

definition templateHead :: jsstring where
  \<open>templateHead = concat
    [of_ascii ''\<newline>'',
     of_ascii ''  <!DOCTYPE html>\<newline>'',
     of_ascii ''  <html lang="ar" dir="rtl">\<newline>'',
     of_ascii ''    <head>\<newline>'',
     of_ascii ''      <meta charset="UTF-8" />\<newline>'',
     of_ascii ''      <meta name="viewport" content="width=device-width, initial-scale=1.0" />\<newline>'',
     of_ascii ''      <title>'',
     [0x628, 0x637, 0x627, 0x642, 0x629],
     of_ascii '' '',
     [0x627, 0x644, 0x645, 0x646, 0x62a, 0x62c],
     of_ascii ''</title>\<newline>'',
     of_ascii ''      <style>\<newline>'',
     of_ascii ''        * {\<newline>'',
     of_ascii ''          margin: 0;\<newline>'',
     of_ascii ''          padding: 0;\<newline>'',
     of_ascii ''          box-sizing: border-box;\<newline>'',
     of_ascii ''          font-family: '',
     [0x27],
     of_ascii ''Arial'',
     [0x27],
     of_ascii '', sans-serif;\<newline>'',
     of_ascii ''        }\<newline>'',
     of_ascii ''        \<newline>'',
     of_ascii ''        body {\<newline>'',
     of_ascii ''          background-color: white;\<newline>'',
     of_ascii ''          margin: 0;\<newline>'',
     of_ascii ''          padding: 0;\<newline>'',
     of_ascii ''          width: 100vw;\<newline>'',
     of_ascii ''          height: 100vh;\<newline>'',
     of_ascii ''          overflow: hidden;\<newline>'',
     of_ascii ''          display: grid;\<newline>'',
     of_ascii ''          place-items: center;\<newline>'',
     of_ascii ''        }\<newline>'',
     of_ascii ''        \<newline>'',
     of_ascii ''        .product-card {\<newline>'',
     of_ascii ''          width: 100dvw;\<newline>'',
     of_ascii ''          height: 100dvh;\<newline>'',
     of_ascii ''          position: relative;\<newline>'',
     of_ascii ''          overflow: hidden;\<newline>'',
     of_ascii ''          background: transparent;\<newline>'',
     of_ascii ''          border-radius: 10px;\<newline>'',
     of_ascii ''        }\<newline>'',
     of_ascii ''        \<newline>'',
     of_ascii ''        .product-image {\<newline>'',
     of_ascii ''          width: 100%;\<newline>'',
     of_ascii ''          height: 100%;\<newline>'',
     of_ascii ''          position: relative;\<newline>'',
     of_ascii ''        }\<newline>'',
     of_ascii ''        \<newline>'',
     of_ascii ''        .product-image img {\<newline>'',
     of_ascii ''          width: 100%;\<newline>'',
     of_ascii ''          height: 100%;\<newline>'',
     of_ascii ''          object-fit: contain;\<newline>'',
     of_ascii ''        }\<newline>'',
     of_ascii ''        \<newline>'',
     of_ascii ''        /* Larger circular price tag with rotation */\<newline>'',
     of_ascii ''        .price-circle {\<newline>'',
     of_ascii ''          position: absolute;\<newline>'',
     of_ascii ''          top: 200px;\<newline>'',
     of_ascii ''          right: 30px;\<newline>'',
     of_ascii ''          width: 150px;\<newline>'',
     of_ascii ''          height: 150px;\<newline>'',
     of_ascii ''          background-color: black;\<newline>'',
     of_ascii ''          border: 5px solid white;\<newline>'',
     of_ascii ''          border-radius: 50%;\<newline>'',
     of_ascii ''          display: flex;\<newline>'',
     of_ascii ''          flex-direction: column;\<newline>'',
     of_ascii ''          justify-content: center;\<newline>'',
     of_ascii ''          align-items: center;\<newline>'',
     of_ascii ''          color: white;\<newline>'',
     of_ascii ''          font-weight: bold;\<newline>'',
     of_ascii ''          z-index: 10;\<newline>'',
     of_ascii ''          box-shadow: 0 6px 12px rgba(0, 0, 0, 0.4);\<newline>'',
     of_ascii ''          transform: rotate(30deg);\<newline>'',
     of_ascii ''        }\<newline>'',
     of_ascii ''        \<newline>'',
     of_ascii ''        .price-value {\<newline>'',
     of_ascii ''          font-size: 36px;\<newline>'',
     of_ascii ''          line-height: 1;\<newline>'',
     of_ascii ''          margin-bottom: 4px;\<newline>'',
     of_ascii ''          text-shadow: 0 1px 2px rgba(0, 0, 0, 0.2);\<newline>'',
     of_ascii ''        }\<newline>'',
     of_ascii ''        \<newline>'',
     of_ascii ''        .price-currency {\<newline>'',
     of_ascii ''          font-size: 24px;\<newline>'',
     of_ascii ''          text-shadow: 0 1px 2px rgba(0, 0, 0, 0.2);\<newline>'',
     of_ascii ''        }\<newline>'',
     of_ascii ''      </style>\<newline>'',
     of_ascii ''    </head>\<newline>'',
     of_ascii ''    <body>\<newline>'',
     of_ascii ''      <div class="product-card">\<newline>'',
     of_ascii ''        <div class="product-image">\<newline>'',
     of_ascii ''          <img src="'']\<close>

definition templateMiddle :: jsstring where
  \<open>templateMiddle = concat
    [of_ascii ''" alt="'',
     [0x635, 0x648, 0x631, 0x629],
     of_ascii '' '',
     [0x627, 0x644, 0x645, 0x646, 0x62a, 0x62c],
     of_ascii ''" />\<newline>'',
     of_ascii ''          <div class="price-circle">\<newline>'',
     of_ascii ''            <div class="price-value">'']\<close>

definition templateTail :: jsstring where
  \<open>templateTail = concat
    [of_ascii ''</div>\<newline>'',
     of_ascii ''          </div>\<newline>'',
     of_ascii ''        </div>\<newline>'',
     of_ascii ''      </div>\<newline>'',
     of_ascii ''    </body>\<newline>'',
     of_ascii ''  </html>\<newline>'',
     of_ascii ''  '']\<close>

definition htmlTemplate :: jsstring where
  "htmlTemplate = templateHead @ of_ascii ''<%= imageUrl %>'' @ templateMiddle
     @ of_ascii ''<%= priceInArabic %>'' @ templateTail"

record templateData =
  imageUrl :: jsstring
  priceInArabic :: jsstring

text \<open>
  The body of a response is a text, or what \<^verbatim>\<open>ejs.render\<close> makes of a template and its
  data; the template engine itself is outside the program.
\<close>

datatype body = Text jsstring | EjsRender jsstring templateData

record response =
  status :: nat
  body :: body

definition imageFileName :: "'a product_scheme \<Rightarrow> jsstring" where
  "imageFileName p =
     (if truthy (variation_suffix p)
      then productCode p @ of_ascii ''_'' @ valueOf (variation_suffix p) @ of_ascii ''.jpg''
      else productCode p @ of_ascii ''.jpg'')"

definition notFound :: response where
  "notFound = \<lparr>status = 404, body = Text (of_ascii ''Product not found'')\<rparr>"

definition productPage :: "(rat \<Rightarrow> jsstring) \<Rightarrow> 'a product_scheme \<Rightarrow> response" where
  "productPage numberToString p =
     (let price = toFixed2 numberToString (current_price p);
          priceInArabic = convertToArabicDigits price
      in \<lparr>status = 200,
          body = EjsRender htmlTemplate
            \<lparr>imageUrl = of_ascii ''/images/'' @ imageFileName p,
             priceInArabic = priceInArabic\<rparr>\<rparr>)"

definition productRoute ::
  "(rat \<Rightarrow> jsstring) \<Rightarrow> 'a product_scheme list \<Rightarrow> jsstring \<Rightarrow> response" where
  "productRoute numberToString productsData param =
     (case parseInt param of
        None \<Rightarrow> notFound
      | Some productIndex \<Rightarrow>
          if productIndex < 0 \<or> int (length productsData) \<le> productIndex then notFound
          else productPage numberToString (productsData ! nat productIndex))"

subsection \<open>What \<open>ejs.render\<close> makes of the template\<close>

text \<open>
  The template has no other tag than the output tag \<^verbatim>\<open><%= name %>\<close>.  The engine copies the
  text outside the tags; for an output tag it evaluates the expression between \<^verbatim>\<open><%=\<close> and
  the next \<^verbatim>\<open>%>\<close>, here the name of a property of the data, and writes the value with the
  five characters \<^verbatim>\<open>& < > " '\<close> replaced by their entities (\<open>escapeXML\<close>).  \<open>None\<close> stands
  for a rendering that throws: a name that the data does not have, or a tag that is not
  closed.
\<close>

definition escapeChar :: "jschar \<Rightarrow> jsstring" where
  "escapeChar c =
     (if c = 0x26 then of_ascii ''&amp;''
      else if c = 0x3C then of_ascii ''&lt;''
      else if c = 0x3E then of_ascii ''&gt;''
      else if c = 0x22 then of_ascii ''&#34;''
      else if c = 0x27 then of_ascii ''&#39;''
      else [c])"

definition escapeXML :: "jsstring \<Rightarrow> jsstring" where
  "escapeXML markup = concat (map escapeChar markup)"

definition lookupData :: "templateData \<Rightarrow> jsstring \<Rightarrow> jsstring option" where
  "lookupData d name =
     (if name = of_ascii ''imageUrl'' then Some (imageUrl d)
      else if name = of_ascii ''priceInArabic'' then Some (priceInArabic d)
      else None)"

definition trim :: "jsstring \<Rightarrow> jsstring" where
  "trim s = rev (dropWhile isWhiteSpace (rev (dropWhile isWhiteSpace s)))"

function ejsScan :: "templateData \<Rightarrow> jsstring option \<Rightarrow> jsstring \<Rightarrow> jsstring option" where
  "ejsScan d tag s =
     (case tag of
        None \<Rightarrow>
          (if s = [] then Some []
           else if take 3 s = of_ascii ''<%='' then ejsScan d (Some []) (drop 3 s)
           else map_option ((#) (hd s)) (ejsScan d None (tl s)))
      | Some expr \<Rightarrow>
          (if s = [] then None
           else if take 2 s = of_ascii ''%>'' then
             (case lookupData d (trim expr) of
                None \<Rightarrow> None
              | Some v \<Rightarrow> map_option ((@) (escapeXML v)) (ejsScan d None (drop 2 s)))
           else ejsScan d (Some (expr @ [hd s])) (tl s)))"
  by pat_completeness auto
termination
  by (relation "measure (\<lambda>(d, tag, s). length s)") auto

declare ejsScan.simps [simp del]

definition ejsRender :: "jsstring \<Rightarrow> templateData \<Rightarrow> jsstring option" where
  "ejsRender template d = ejsScan d None template"

fun bodyText :: "body \<Rightarrow> jsstring option" where
  "bodyText (Text t) = Some t"
| "bodyText (EjsRender template d) = ejsRender template d"

text \<open>A text in which no \<^verbatim>\<open><\<close> is followed by \<^verbatim>\<open>%\<close> or ends the text: the scan copies it.\<close>

fun noTagOpen :: "jsstring \<Rightarrow> bool" where
  "noTagOpen [] = True"
| "noTagOpen [c] = (c \<noteq> 0x3C)"
| "noTagOpen (c # c' # cs) = ((c = 0x3C \<longrightarrow> c' \<noteq> 0x25) \<and> noTagOpen (c' # cs))"

section \<open>Capture workers and the orchestrator (index.js 222-298, 305-370)\<close>

subsection \<open>Messages of a worker\<close>

definition intToString :: "int \<Rightarrow> jsstring" where
  "intToString i = (if i < 0 then of_ascii ''-'' @ decimalDigits (nat (- i)) else decimalDigits (nat i))"

text \<open>
  \<^verbatim>\<open>`Processing product ${index+1}: Product Code ${product.productCode}${product.variation_suffix\<close>
  \<^verbatim>\<open>? '_' + product.variation_suffix : ''}`\<close>
\<close>

definition processingMessage :: "workItem \<Rightarrow> jsstring" where
  "processingMessage w =
     of_ascii ''Processing product '' @ intToString (index w + 1) @ of_ascii '': Product Code ''
     @ productCode (product w)
     @ (if truthy (variation_suffix (product w))
        then of_ascii ''_'' @ valueOf (variation_suffix (product w)) else [])"

definition generatedMessage :: "jsstring \<Rightarrow> jsstring" where
  "generatedMessage outputPath = of_ascii ''Generated image: '' @ outputPath"

definition errorMessage :: "jsstring \<Rightarrow> jsstring" where
  "errorMessage message = of_ascii ''Error: '' @ message"

definition DONE :: jsstring where
  "DONE = of_ascii ''DONE''"

subsection \<open>State of a run\<close>

text \<open>
  A worker walks through its chunk: before item \<open>i\<close> (\<open>Running\<close>), between the two
  messages of item \<open>i\<close> (\<open>Capturing\<close>), or ended, after \<^verbatim>\<open>'DONE'\<close> (\<open>Exited True\<close>) or
  without it (\<open>Exited False\<close>).
\<close>

datatype wstate = Running "workItem list" nat | Capturing "workItem list" nat | Exited bool

datatype phase = Start | Awaiting | Persisted | EarlyExit

text \<open>
  \<open>inbox\<close> holds the messages that workers have posted and whose listener has not run
  yet; \<open>received\<close> lists the messages whose listener has run, with the worker they came from
  (the listener logs each of them).  \<open>store\<close> is the content of products.json.
\<close>

record sys =
  phase :: phase
  serverListening :: bool
  serverStarts :: nat
  workers :: "wstate list"
  inbox :: "(nat \<times> jsstring) list"
  received :: "(nat \<times> jsstring) list"
  completedWorkers :: nat
  resolved :: bool
  store :: "product list"
  storeWrites :: nat

definition init :: "product list \<Rightarrow> sys" where
  "init productsData =
     \<lparr>phase = Start, serverListening = False, serverStarts = 0, workers = [], inbox = [],
      received = [], completedWorkers = 0, resolved = False, store = productsData,
      storeWrites = 0\<rparr>"

text \<open>The \<^verbatim>\<open>'message'\<close> listener of the orchestrator (index.js 254-262).\<close>

definition onMessage :: "nat \<Rightarrow> jsstring \<Rightarrow> sys \<Rightarrow> sys" where
  "onMessage w message s =
     (let s1 = s\<lparr>received := received s @ [(w, message)]\<rparr>
      in if message = DONE
         then let s2 = s1\<lparr>completedWorkers := Suc (completedWorkers s1)\<rparr>
              in if completedWorkers s2 = length (workers s2) then s2\<lparr>resolved := True\<rparr> else s2
         else s1)"

subsection \<open>Steps of a run\<close>

text \<open>
  \<open>NUM_WORKERS\<close> and the loaded \<open>productsData\<close> are fixed for a run.  A step is one of:
  \<^item> \<open>main\<close> returns at once, there being nothing to process;
  \<^item> \<open>main\<close> starts the server, partitions, and creates a worker for every group that is
    not empty; the promise is resolved at once when no worker was created;
  \<^item> a worker posts the first message of its next item; posts the second one after the
    capture; posts \<^verbatim>\<open>'DONE'\<close> after its last item and ends; catches an exception, posts the
    error and exits; or ends with nothing posted (the \<^verbatim>\<open>'error'\<close> listener only logs);
  \<^item> the listener runs on the oldest posted message;
  \<^item> \<open>main\<close> resumes after the promise is resolved: it closes the server and rewrites the
    store.
  Nothing forces a worker to take a step: a navigation may hang.
\<close>

inductive step :: "nat \<Rightarrow> product list \<Rightarrow> sys \<Rightarrow> sys \<Rightarrow> bool"
  for NUM_WORKERS :: nat and productsData :: "product list" where
  early:
    "phase s = Start \<Longrightarrow> productsToProcess productsData = [] \<Longrightarrow>
     step NUM_WORKERS productsData s (s\<lparr>phase := EarlyExit\<rparr>)"
| spawn:
    "phase s = Start \<Longrightarrow> productsToProcess productsData \<noteq> [] \<Longrightarrow>
     chunkArray productsData (productsToProcess productsData) NUM_WORKERS = Inr productChunks \<Longrightarrow>
     ws = map (\<lambda>chunk. Running chunk 0) (filter (\<lambda>chunk. chunk \<noteq> []) productChunks) \<Longrightarrow>
     step NUM_WORKERS productsData s
       (s\<lparr>phase := Awaiting, serverListening := True, serverStarts := Suc (serverStarts s),
          workers := ws, resolved := (ws = [])\<rparr>)"
| processing:
    "w < length (workers s) \<Longrightarrow> workers s ! w = Running chunk i \<Longrightarrow> i < length chunk \<Longrightarrow>
     step NUM_WORKERS productsData s
       (s\<lparr>workers := (workers s)[w := Capturing chunk i],
          inbox := inbox s @ [(w, processingMessage (chunk ! i))]\<rparr>)"
| generated:
    "w < length (workers s) \<Longrightarrow> workers s ! w = Capturing chunk i \<Longrightarrow>
     step NUM_WORKERS productsData s
       (s\<lparr>workers := (workers s)[w := Running chunk (Suc i)],
          inbox := inbox s @ [(w, generatedMessage outputPath)]\<rparr>)"
| completed:
    "w < length (workers s) \<Longrightarrow> workers s ! w = Running chunk i \<Longrightarrow> \<not> i < length chunk \<Longrightarrow>
     step NUM_WORKERS productsData s
       (s\<lparr>workers := (workers s)[w := Exited True], inbox := inbox s @ [(w, DONE)]\<rparr>)"
| failed:
    "w < length (workers s) \<Longrightarrow> workers s ! w = Running chunk i \<or> workers s ! w = Capturing chunk i \<Longrightarrow>
     step NUM_WORKERS productsData s
       (s\<lparr>workers := (workers s)[w := Exited False],
          inbox := inbox s @ [(w, errorMessage message)]\<rparr>)"
| killed:
    "w < length (workers s) \<Longrightarrow> workers s ! w = Running chunk i \<or> workers s ! w = Capturing chunk i \<Longrightarrow>
     step NUM_WORKERS productsData s (s\<lparr>workers := (workers s)[w := Exited False]\<rparr>)"
| deliver:
    "inbox s = (w, message) # rest \<Longrightarrow>
     step NUM_WORKERS productsData s (onMessage w message (s\<lparr>inbox := rest\<rparr>))"
| finish:
    "phase s = Awaiting \<Longrightarrow> resolved s \<Longrightarrow>
     step NUM_WORKERS productsData s
       (s\<lparr>phase := Persisted, serverListening := False,
          store := updatedProducts productsData, storeWrites := Suc (storeWrites s)\<rparr>)"

definition reachable :: "nat \<Rightarrow> product list \<Rightarrow> sys \<Rightarrow> bool" where
  "reachable NUM_WORKERS productsData s =
     (step NUM_WORKERS productsData)\<^sup>*\<^sup>* (init productsData) s"

section \<open>Two decimal places, as the specification words it\<close>

text \<open>
  A price formatted to exactly two decimal places: a minus sign when the price is negative,
  the digits of the integer part, a full stop and two digits; the digits are those of \<open>n\<close>,
  the integer nearest to a hundred times the magnitude of the price (the larger one of
  two), so that the text denotes \<open>n / 100\<close>.
\<close>

definition twoDecimals :: "rat \<Rightarrow> jsstring" where
  "twoDecimals x =
     (let n = nat \<lfloor>\<bar>x\<bar> * 100 + 1 / 2\<rfloor>
      in (if x < 0 then of_ascii ''-'' else []) @ decimalDigits (n div 100) @ of_ascii ''.''
         @ [westernDigits ! (n div 10 mod 10), westernDigits ! (n mod 10)])"

section \<open>Identity keys, as the specification words them\<close>

text \<open>
  The identity key of a record is the pair of its \<open>productCode\<close> and its
  \<open>variation_suffix\<close>, an absent suffix (missing or \<^verbatim>\<open>null\<close>) being one value.
  \<open>identityKeyOrEmpty\<close> is the key that takes the empty suffix for an absent one as well.
\<close>

definition identityKey :: "product \<Rightarrow> jsstring \<times> jsstring option" where
  "identityKey p =
     (productCode p, case variation_suffix p of Val s \<Rightarrow> Some s | _ \<Rightarrow> None)"

definition identityKeyOrEmpty :: "product \<Rightarrow> jsstring \<times> jsstring option" where
  "identityKeyOrEmpty p =
     (productCode p,
      case variation_suffix p of Val s \<Rightarrow> (if s = [] then None else Some s) | _ \<Rightarrow> None)"

section \<open>Groups of the partition\<close>

text \<open>
  The group \<open>g\<close> of a list for \<open>K\<close> groups holds the items at the positions \<open>j\<close> with
  \<open>j mod K = g\<close>, in increasing position; it has \<open>groupSize N K g\<close> items when the list has
  \<open>N\<close>.  \<open>annotate\<close> is the object that the loop pushes for an item.
\<close>

definition groupSize :: "nat \<Rightarrow> nat \<Rightarrow> nat \<Rightarrow> nat" where
  "groupSize N K g = N div K + (if g < N mod K then 1 else 0)"

definition groupOf :: "nat \<Rightarrow> 'a list \<Rightarrow> nat \<Rightarrow> 'a list" where
  "groupOf K xs g = map (\<lambda>j. xs ! j) (filter (\<lambda>j. j mod K = g) [0 ..< length xs])"

definition annotate :: "product list \<Rightarrow> product \<Rightarrow> workItem" where
  "annotate pd item = \<lparr>index = findIndex (matchesItem item) pd, product = item\<rparr>"

section \<open>Invariants of a run\<close>

text \<open>
  What holds in every state that a run reaches: per phase, the state of the server and of
  the store; and the count of the orchestrator against the \<^verbatim>\<open>'DONE'\<close> messages posted.
\<close>

definition basicInv :: "product list \<Rightarrow> sys \<Rightarrow> bool" where
  "basicInv pd s =
    ((phase s = Start \<longrightarrow> s = init pd)
     \<and> (phase s = EarlyExit \<longrightarrow> s = (init pd)\<lparr>phase := EarlyExit\<rparr> \<and> productsToProcess pd = [])
     \<and> (phase s = Awaiting \<longrightarrow> serverListening s \<and> serverStarts s = 1 \<and> store s = pd
           \<and> storeWrites s = 0 \<and> productsToProcess pd \<noteq> [])
     \<and> (phase s = Persisted \<longrightarrow> \<not> serverListening s \<and> serverStarts s = 1
           \<and> store s = updatedProducts pd \<and> storeWrites s = 1 \<and> resolved s
           \<and> productsToProcess pd \<noteq> []))"

definition doneSenders :: "(nat \<times> jsstring) list \<Rightarrow> nat list" where
  "doneSenders ms = map fst (filter (\<lambda>e. snd e = DONE) ms)"

definition exitedDone :: "wstate list \<Rightarrow> nat set" where
  "exitedDone ws = {v. v < length ws \<and> ws ! v = Exited True}"

definition countInv :: "sys \<Rightarrow> bool" where
  "countInv s =
    (distinct (doneSenders (received s @ inbox s))
     \<and> set (doneSenders (received s @ inbox s)) = exitedDone (workers s)
     \<and> completedWorkers s = length (doneSenders (received s))
     \<and> (resolved s \<longrightarrow> completedWorkers s = length (workers s)))"

section \<open>Sample data\<close>

subsection \<open>Records\<close>

text \<open>
  Three records: \<open>exA\<close> has its previous price equal to the current one, \<open>exB\<close> has no
  previous price, and the previous price of \<open>exC\<close> differs from the current one.
\<close>

definition exA :: product where
  "exA = \<lparr>productCode = of_ascii ''A'', variation_suffix = Undefined, current_price = 10,
     previous_price = Val 10\<rparr>"

definition exB :: product where
  "exB = \<lparr>productCode = of_ascii ''B'', variation_suffix = Val (of_ascii ''red''),
     current_price = 39 / 2, previous_price = Undefined\<rparr>"

definition exC :: product where
  "exC = \<lparr>productCode = of_ascii ''C'', variation_suffix = Null, current_price = 5,
     previous_price = Val 4\<rparr>"

subsection \<open>Records for the page server\<close>

text \<open>
  \<open>exX1\<close> is the record \<^verbatim>\<open>{productCode: "X1", current_price: 19.9}\<close>: its price is the
  number that \<^verbatim>\<open>JSON.parse\<close> reads from \<^verbatim>\<open>19.9\<close>, the double \<^verbatim>\<open>0x4033E66666666666\<close>, which is
  \<open>2800676018271027 / 2^47\<close>.  \<open>exHuge\<close> has the price \<^verbatim>\<open>1e21\<close>, and \<open>exNumberToString\<close>
  is \<^verbatim>\<open>Number::toString\<close> at that number.
\<close>

definition exX1 :: product where
  "exX1 = \<lparr>productCode = of_ascii ''X1'', variation_suffix = Undefined,
     current_price = 2800676018271027 / 140737488355328, previous_price = Undefined\<rparr>"

definition exHuge :: product where
  "exHuge = \<lparr>productCode = of_ascii ''H'', variation_suffix = Undefined,
     current_price = 10 ^ 21, previous_price = Undefined\<rparr>"

definition exNumberToString :: "rat \<Rightarrow> jsstring" where
  "exNumberToString x = (if x = 10 ^ 21 then of_ascii ''1e+21'' else [])"

subsection \<open>Runs\<close>

text \<open>
  One worker and the collection \<open>[exA, exB]\<close>, of which only \<open>exB\<close>, at position 1, is
  pending.  In the first run the worker captures its item and posts \<^verbatim>\<open>'DONE'\<close>; in the
  second one it fails before its first item.
\<close>

definition exData :: "product list" where
  "exData = [exA, exB]"

definition exItem :: workItem where
  "exItem = \<lparr>index = 1, product = exB\<rparr>"

definition exPath :: jsstring where
  "exPath = of_ascii ''generated_cards/B_red.webp''"

definition exFailure :: jsstring where
  "exFailure = of_ascii ''net::ERR_CONNECTION_REFUSED''"

definition runSpawned :: sys where
  "runSpawned = (init exData)\<lparr>phase := Awaiting, serverListening := True, serverStarts := 1,
     workers := [Running [exItem] 0]\<rparr>"

definition runProcessing :: sys where
  "runProcessing = runSpawned\<lparr>workers := [Capturing [exItem] 0],
     inbox := [(0, processingMessage exItem)]\<rparr>"

definition runGenerated :: sys where
  "runGenerated = runProcessing\<lparr>workers := [Running [exItem] 1],
     inbox := [(0, processingMessage exItem), (0, generatedMessage exPath)]\<rparr>"

definition runCompleted :: sys where
  "runCompleted = runGenerated\<lparr>workers := [Exited True],
     inbox := [(0, processingMessage exItem), (0, generatedMessage exPath), (0, DONE)]\<rparr>"

definition runHeard1 :: sys where
  "runHeard1 = runCompleted\<lparr>inbox := [(0, generatedMessage exPath), (0, DONE)],
     received := [(0, processingMessage exItem)]\<rparr>"

definition runHeard2 :: sys where
  "runHeard2 = runHeard1\<lparr>inbox := [(0, DONE)],
     received := [(0, processingMessage exItem), (0, generatedMessage exPath)]\<rparr>"

definition runResolved :: sys where
  "runResolved = runHeard2\<lparr>inbox := [],
     received := [(0, processingMessage exItem), (0, generatedMessage exPath), (0, DONE)],
     completedWorkers := 1, resolved := True\<rparr>"

definition runPersisted :: sys where
  "runPersisted = runResolved\<lparr>phase := Persisted, serverListening := False,
     store := updatedProducts exData, storeWrites := 1\<rparr>"

definition runFailed :: sys where
  "runFailed = runSpawned\<lparr>workers := [Exited False], inbox := [(0, errorMessage exFailure)]\<rparr>"

definition runFailedHeard :: sys where
  "runFailedHeard = runFailed\<lparr>inbox := [], received := [(0, errorMessage exFailure)]\<rparr>"

subsection \<open>A partition\<close>

text \<open>
  The collection \<open>exData4\<close> has three pending records; with two workers they are grouped
  as \<open>exChunks\<close>.
\<close>

definition exData4 :: "product list" where
  "exData4 = [exA, exB, exC, exX1]"

definition exChunks :: "workItem list list" where
  "exChunks = [[\<lparr>index = 1, product = exB\<rparr>, \<lparr>index = 3, product = exX1\<rparr>],
     [\<lparr>index = 2, product = exC\<rparr>]]"

subsection \<open>Records that differ in the suffix only\<close>

text \<open>
  Four pending records of the product code \<^verbatim>\<open>C\<close>: with the suffixes \<^verbatim>\<open>red\<close> and \<^verbatim>\<open>blue\<close>,
  with the empty suffix and with the suffix \<^verbatim>\<open>null\<close>.
\<close>

definition exRed :: product where
  "exRed = \<lparr>productCode = of_ascii ''C'', variation_suffix = Val (of_ascii ''red''),
     current_price = 5, previous_price = Val 4\<rparr>"

definition exBlue :: product where
  "exBlue = \<lparr>productCode = of_ascii ''C'', variation_suffix = Val (of_ascii ''blue''),
     current_price = 5, previous_price = Val 4\<rparr>"

definition exEmptySuffix :: product where
  "exEmptySuffix = \<lparr>productCode = of_ascii ''C'', variation_suffix = Val [],
     current_price = 5, previous_price = Val 4\<rparr>"

definition exNullSuffix :: product where
  "exNullSuffix = \<lparr>productCode = of_ascii ''C'', variation_suffix = Null,
     current_price = 7, previous_price = Val 4\<rparr>"

section \<open>Properties of the digit formatter\<close>

lemma westernDigits_eq: "westernDigits = [48, 49, 50, 51, 52, 53, 54, 55, 56, 57]"
  by (simp add: westernDigits_def of_ascii_def)

lemma upt_10: "[0 ..< 10] = [0, 1, 2, 3, 4, 5, 6, 7, 8, 9 :: nat]"
  by (simp add: upt_rec)

lemma lt_10_cases:
  "(d :: nat) < 10 \<Longrightarrow>
    d = 0 \<or> d = 1 \<or> d = 2 \<or> d = 3 \<or> d = 4 \<or> d = 5 \<or> d = 6 \<or> d = 7 \<or> d = 8 \<or> d = 9"
  by arith

lemma isDecimalDigit_iff:
  "isDecimalDigit c \<longleftrightarrow> c = 48 \<or> c = 49 \<or> c = 50 \<or> c = 51 \<or> c = 52 \<or> c = 53 \<or> c = 54
     \<or> c = 55 \<or> c = 56 \<or> c = 57"
  by (auto simp add: isDecimalDigit_def westernDigits_eq)

lemma replaceDigit_digit:
  "replaceDigit 48 = 0x660" "replaceDigit 49 = 0x661" "replaceDigit 50 = 0x662"
  "replaceDigit 51 = 0x663" "replaceDigit 52 = 0x664" "replaceDigit 53 = 0x665"
  "replaceDigit 54 = 0x666" "replaceDigit 55 = 0x667" "replaceDigit 56 = 0x668"
  "replaceDigit 57 = 0x669"
  by (simp_all add: replaceDigit_def isDecimalDigit_iff digitValue_def westernDigits_eq upt_10
      arabicDigits_def)

lemma replaceDigit_other: "\<not> isDecimalDigit c \<Longrightarrow> replaceDigit c = c"
  by (simp add: replaceDigit_def)

lemma replaceDigit_nth:
  "d < 10 \<Longrightarrow> replaceDigit (westernDigits ! d) = arabicDigits ! d"
proof -
  assume "d < 10"
  then consider "d = 0" | "d = 1" | "d = 2" | "d = 3" | "d = 4" | "d = 5" | "d = 6" | "d = 7"
    | "d = 8" | "d = 9"
    using lt_10_cases by blast
  then show ?thesis
    by cases (simp_all add: westernDigits_eq replaceDigit_digit arabicDigits_def)
qed

lemma isDecimalDigit_nth: "isDecimalDigit c \<Longrightarrow> \<exists>d < 10. c = westernDigits ! d"
proof -
  assume "isDecimalDigit c"
  then obtain d where "d < length westernDigits" "westernDigits ! d = c"
    unfolding isDecimalDigit_def in_set_conv_nth by blast
  then show ?thesis
    by (intro exI [of _ d]) (simp add: westernDigits_eq)
qed

lemma inverseGlyph_arabic: "d < 10 \<Longrightarrow> inverseGlyph (arabicDigits ! d) = westernDigits ! d"
proof -
  assume "d < 10"
  then consider "d = 0" | "d = 1" | "d = 2" | "d = 3" | "d = 4" | "d = 5" | "d = 6" | "d = 7"
    | "d = 8" | "d = 9"
    using lt_10_cases by blast
  then show ?thesis
    by cases (simp_all add: westernDigits_eq inverseGlyph_def arabicDigits_def)
qed

lemma inverseGlyph_other: "c \<notin> set arabicDigits \<Longrightarrow> inverseGlyph c = c"
  by (simp add: inverseGlyph_def arabicDigits_def westernDigits_eq)

lemma inverseGlyph_replaceDigit:
  assumes "isDecimalDigit c \<or> c \<notin> set arabicDigits"
  shows "inverseGlyph (replaceDigit c) = c"
proof (cases "isDecimalDigit c")
  case True
  then obtain d where d: "d < 10" "c = westernDigits ! d"
    using isDecimalDigit_nth by blast
  then show ?thesis
    by (simp add: replaceDigit_nth inverseGlyph_arabic)
next
  case False
  with assms show ?thesis
    by (simp add: replaceDigit_other inverseGlyph_other)
qed

text \<open>
  Claim C4.  For every string made only of the Western digits 0-9 and a decimal separator
  (a code unit \<open>sep\<close> that is neither a Western digit nor an Arabic-Indic glyph, such as
  the full stop that \<open>toFixed\<close> writes), the formatter keeps the length, puts at every digit
  position the Arabic-Indic glyph of that digit, copies the separator, and the inverse glyph
  table maps the output back to the input.
\<close>

theorem convertToArabicDigits_roundtrip:
  assumes "\<forall>c \<in> set s. isDecimalDigit c \<or> c = sep"
    and "\<not> isDecimalDigit sep" and "sep \<notin> set arabicDigits"
  shows "length (convertToArabicDigits s) = length s
    \<and> (\<forall>i < length s. convertToArabicDigits s ! i =
          (if isDecimalDigit (s ! i) then arabicDigits ! digitValue (s ! i) else sep))
    \<and> (\<forall>i < length s. s ! i = sep \<longrightarrow> convertToArabicDigits s ! i = sep)
    \<and> fromArabicDigits (convertToArabicDigits s) = s"
proof -
  have each: "inverseGlyph (replaceDigit c) = c" if "c \<in> set s" for c
    using that assms by (intro inverseGlyph_replaceDigit) auto
  have rt: "fromArabicDigits (convertToArabicDigits s) = s"
    unfolding fromArabicDigits_def convertToArabicDigits_def
    by (simp add: each map_idI)
  have pos: "convertToArabicDigits s ! i =
      (if isDecimalDigit (s ! i) then arabicDigits ! digitValue (s ! i) else sep)"
    if "i < length s" for i
  proof -
    from that have "s ! i \<in> set s" by simp
    with assms(1) have "isDecimalDigit (s ! i) \<or> s ! i = sep" by blast
    with that assms(2) show ?thesis
      by (auto simp add: convertToArabicDigits_def replaceDigit_def)
  qed
  have keep: "convertToArabicDigits s ! i = sep" if "i < length s" "s ! i = sep" for i
    using that assms(2) by (simp add: convertToArabicDigits_def replaceDigit_def)
  show ?thesis
    using rt pos keep by (simp add: convertToArabicDigits_def)
qed

theorem convertToArabicDigits_roundtrip_witness:
  "convertToArabicDigits (of_ascii ''19.90'') = [0x661, 0x669, 0x2E, 0x669, 0x660]
    \<and> fromArabicDigits (convertToArabicDigits (of_ascii ''19.90'')) = of_ascii ''19.90''"
proof -
  have s: "of_ascii ''19.90'' = [49, 57, 46, 57, 48]"
    by (simp add: of_ascii_def)
  have h1: "\<forall>c \<in> set (of_ascii ''19.90''). isDecimalDigit c \<or> c = 46"
    by (simp add: s isDecimalDigit_iff)
  have h2: "\<not> isDecimalDigit 46"
    by (simp add: isDecimalDigit_iff)
  have h3: "(46 :: jschar) \<notin> set arabicDigits"
    by (simp add: arabicDigits_def)
  have v: "digitValue 49 = 1" "digitValue 57 = 9" "digitValue 48 = 0"
    by (simp_all add: digitValue_def westernDigits_eq upt_10)
  from convertToArabicDigits_roundtrip [OF h1 h2 h3]
  have len: "length (convertToArabicDigits (of_ascii ''19.90'')) = 5"
    and nth: "\<forall>i < 5. convertToArabicDigits (of_ascii ''19.90'') ! i =
          (if isDecimalDigit (of_ascii ''19.90'' ! i)
           then arabicDigits ! digitValue (of_ascii ''19.90'' ! i) else 46)"
    and rt: "fromArabicDigits (convertToArabicDigits (of_ascii ''19.90'')) = of_ascii ''19.90''"
    by (simp_all add: s)
  have "convertToArabicDigits (of_ascii ''19.90'') = [0x661, 0x669, 0x2E, 0x669, 0x660]"
  proof (rule nth_equalityI)
    show "length (convertToArabicDigits (of_ascii ''19.90'')) =
        length [0x661, 0x669, 0x2E, 0x669, 0x660 :: jschar]"
      using len by simp
  next
    fix i assume "i < length (convertToArabicDigits (of_ascii ''19.90''))"
    then have i: "i < 5" using len by simp
    then consider "i = 0" | "i = 1" | "i = 2" | "i = 3" | "i = 4" by arith
    then show "convertToArabicDigits (of_ascii ''19.90'') ! i =
        [0x661, 0x669, 0x2E, 0x669, 0x660] ! i"
      using nth i
      by cases (simp_all add: s isDecimalDigit_iff v arabicDigits_def)
  qed
  with rt show ?thesis by simp
qed

section \<open>Selection of the pending records\<close>

lemma filter_by_index:
  "filter P xs = map (\<lambda>i. xs ! i) (filter (\<lambda>i. P (xs ! i)) [0 ..< length xs])"
proof -
  have "filter P xs = filter P (map (\<lambda>i. xs ! i) [0 ..< length xs])"
    by (simp add: map_nth)
  also have "\<dots> = map (\<lambda>i. xs ! i) (filter (\<lambda>i. P (xs ! i)) [0 ..< length xs])"
    by (simp add: filter_map comp_def)
  finally show ?thesis .
qed

lemma needsImage_iff: "needsImage p \<longleftrightarrow> previous_price p \<noteq> Val (current_price p)"
  by (cases "previous_price p") (simp_all add: needsImage_def strictNotEqual_def)

lemma needsImage_iff_spec:
  "needsImage p \<longleftrightarrow>
     previous_price p = Null \<or> previous_price p = Undefined
     \<or> previous_price p \<noteq> Val (current_price p)"
  by (cases "previous_price p") (simp_all add: needsImage_def strictNotEqual_def)

text \<open>
  Claim C1.  The selection returns the records at exactly those positions of the collection
  whose \<open>previous_price\<close> is null, or absent, or unequal to \<open>current_price\<close>, in increasing
  order of position (so in the order of the input); and no record whose \<open>previous_price\<close>
  equals its \<open>current_price\<close> is selected.
\<close>

theorem productsToProcess_exact:
  "productsToProcess pd =
     map (\<lambda>i. pd ! i)
       (filter (\<lambda>i. previous_price (pd ! i) = Null \<or> previous_price (pd ! i) = Undefined
                  \<or> previous_price (pd ! i) \<noteq> Val (current_price (pd ! i)))
          [0 ..< length pd])
   \<and> (\<forall>p \<in> set pd. previous_price p = Val (current_price p) \<longrightarrow>
         p \<notin> set (productsToProcess pd))"
proof -
  have "productsToProcess pd =
      map (\<lambda>i. pd ! i) (filter (\<lambda>i. needsImage (pd ! i)) [0 ..< length pd])"
    unfolding productsToProcess_def by (rule filter_by_index)
  moreover have "\<forall>p \<in> set pd. previous_price p = Val (current_price p) \<longrightarrow>
      p \<notin> set (productsToProcess pd)"
    by (simp add: productsToProcess_def needsImage_iff)
  ultimately show ?thesis
    by (simp add: needsImage_iff_spec)
qed

theorem productsToProcess_exact_witness:
  "productsToProcess [exA, exB, exC] = [exB, exC]
   \<and> exA \<notin> set (productsToProcess [exA, exB, exC])"
proof -
  have idx: "[0 ..< length [exA, exB, exC]] = [0, 1, 2]"
    by (simp add: upt_rec)
  have "exA \<in> set [exA, exB, exC]" "previous_price exA = Val (current_price exA)"
    by (simp_all add: exA_def)
  with productsToProcess_exact [of "[exA, exB, exC]"] show ?thesis
    unfolding idx by (simp add: exA_def exB_def exC_def)
qed

section \<open>Runs of the orchestrator\<close>

lemma messages_not_DONE:
  "processingMessage x \<noteq> DONE" "generatedMessage path \<noteq> DONE" "errorMessage e \<noteq> DONE"
  by (simp_all add: processingMessage_def generatedMessage_def errorMessage_def DONE_def
      of_ascii_def)

lemma basicInv_init: "basicInv pd (init pd)"
  by (simp add: basicInv_def init_def)

lemma basicInv_step:
  assumes "step K pd s s'" and "basicInv pd s"
  shows "basicInv pd s'"
  using assms
proof (cases rule: step.cases)
  case early
  with assms(2) show ?thesis by (simp add: basicInv_def)
next
  case (spawn productChunks ws)
  with assms(2) show ?thesis by (simp add: basicInv_def init_def)
next
  case (processing w chunk i)
  with assms(2) show ?thesis by (cases "phase s") (auto simp add: basicInv_def init_def)
next
  case (generated w chunk i outputPath)
  with assms(2) show ?thesis by (cases "phase s") (auto simp add: basicInv_def init_def)
next
  case (completed w chunk i)
  with assms(2) show ?thesis by (cases "phase s") (auto simp add: basicInv_def init_def)
next
  case (failed w chunk i message)
  with assms(2) show ?thesis by (cases "phase s") (auto simp add: basicInv_def init_def)
next
  case (killed w chunk i)
  with assms(2) show ?thesis by (cases "phase s") (auto simp add: basicInv_def init_def)
next
  case (deliver w message rest)
  with assms(2) show ?thesis
    by (cases "phase s") (auto simp add: basicInv_def init_def onMessage_def Let_def)
next
  case finish
  with assms(2) show ?thesis by (simp add: basicInv_def)
qed

lemma reachable_basicInv: "reachable K pd s \<Longrightarrow> basicInv pd s"
  unfolding reachable_def
  by (induction rule: rtranclp_induct) (auto intro: basicInv_init basicInv_step)

lemma doneSenders_append: "doneSenders (xs @ ys) = doneSenders xs @ doneSenders ys"
  by (simp add: doneSenders_def)

lemma doneSenders_single: "doneSenders [(w, m)] = (if m = DONE then [w] else [])"
  by (simp add: doneSenders_def)

lemma doneSenders_Cons:
  "doneSenders ((w, m) # ms) = (if m = DONE then w # doneSenders ms else doneSenders ms)"
  by (simp add: doneSenders_def)

lemma exitedDone_update_other:
  assumes "ws ! w \<noteq> Exited True" and "x \<noteq> Exited True"
  shows "exitedDone (ws[w := x]) = exitedDone ws"
proof -
  have "(v < length (ws[w := x]) \<and> ws[w := x] ! v = Exited True) =
      (v < length ws \<and> ws ! v = Exited True)" for v
  proof (cases "v = w")
    case True
    with assms show ?thesis by (cases "w < length ws") simp_all
  next
    case False
    then show ?thesis by simp
  qed
  then show ?thesis by (simp add: exitedDone_def)
qed

lemma exitedDone_update_done:
  assumes "w < length ws"
  shows "exitedDone (ws[w := Exited True]) = insert w (exitedDone ws)"
proof -
  have "(v < length (ws[w := Exited True]) \<and> ws[w := Exited True] ! v = Exited True) =
      (v = w \<or> (v < length ws \<and> ws ! v = Exited True))" for v
    using assms by (cases "v = w") simp_all
  then show ?thesis by (auto simp add: exitedDone_def)
qed

lemma distinct_bounded_length:
  assumes "distinct ds" and "set ds \<subseteq> exitedDone ws"
  shows "length ds \<le> length ws"
proof -
  from assms(2) have "set ds \<subseteq> {..< length ws}" by (auto simp add: exitedDone_def)
  then have "card (set ds) \<le> card {..< length ws}" by (intro card_mono) auto
  with assms(1) show ?thesis by (simp add: distinct_card)
qed

lemma countInvI:
  assumes "distinct (doneSenders (received s @ inbox s))"
    and "set (doneSenders (received s @ inbox s)) = exitedDone (workers s)"
    and "completedWorkers s = length (doneSenders (received s))"
    and "resolved s \<Longrightarrow> completedWorkers s = length (workers s)"
  shows "countInv s"
  using assms unfolding countInv_def by blast

lemma countInvD:
  assumes "countInv s"
  shows "distinct (doneSenders (received s @ inbox s))"
    and "set (doneSenders (received s @ inbox s)) = exitedDone (workers s)"
    and "completedWorkers s = length (doneSenders (received s))"
    and "resolved s \<Longrightarrow> completedWorkers s = length (workers s)"
  using assms unfolding countInv_def by blast+

lemma countInv_init: "countInv (init pd)"
  by (rule countInvI) (simp_all add: init_def doneSenders_def exitedDone_def)

lemma countInv_post:
  assumes "countInv s" and "ws ! w \<noteq> Exited True" and "x \<noteq> Exited True"
    and "m \<noteq> DONE" and "workers s = ws"
  shows "countInv (s\<lparr>workers := ws[w := x], inbox := inbox s @ [(w, m)]\<rparr>)"
proof (rule countInvI)
  note inv = countInvD [OF assms(1)]
  let ?s' = "s\<lparr>workers := ws[w := x], inbox := inbox s @ [(w, m)]\<rparr>"
  have ds: "doneSenders (received ?s' @ inbox ?s') = doneSenders (received s @ inbox s)"
    using assms(4) by (simp add: doneSenders_append doneSenders_single)
  show "distinct (doneSenders (received ?s' @ inbox ?s'))"
    unfolding ds by (rule inv(1))
  show "set (doneSenders (received ?s' @ inbox ?s')) = exitedDone (workers ?s')"
    unfolding ds using inv(2) assms(2,3,5) by (simp add: exitedDone_update_other)
  show "completedWorkers ?s' = length (doneSenders (received ?s'))"
    using inv(3) by simp
  show "completedWorkers ?s' = length (workers ?s')" if "resolved ?s'"
    using that inv(4) assms(5) by simp
qed


lemma countInv_step:
  assumes "step K pd s s'" and "basicInv pd s" and "countInv s"
  shows "countInv s'"
  using assms(1)
proof (cases rule: step.cases)
  case early
  note inv = countInvD [OF assms(3)]
  show ?thesis
    unfolding early(1) using inv by (intro countInvI) simp_all
next
  case (spawn productChunks ws)
  with assms(2) have "s = init pd" by (simp add: basicInv_def)
  then show ?thesis
    unfolding spawn(1)
    by (intro countInvI) (auto simp add: init_def doneSenders_def exitedDone_def spawn(5))
next
  case (processing w chunk i)
  show ?thesis
    unfolding processing(1)
    by (rule countInv_post [OF assms(3)]) (simp_all add: processing messages_not_DONE)
next
  case (generated w chunk i outputPath)
  show ?thesis
    unfolding generated(1)
    by (rule countInv_post [OF assms(3)]) (simp_all add: generated messages_not_DONE)
next
  case (failed w chunk i message)
  then have "workers s ! w \<noteq> Exited True" by auto
  then show ?thesis
    unfolding failed(1)
    by (intro countInv_post [OF assms(3)]) (simp_all add: messages_not_DONE)
next
  case (killed w chunk i)
  then have ne: "workers s ! w \<noteq> Exited True" by auto
  note inv = countInvD [OF assms(3)]
  show ?thesis
    unfolding killed(1) using inv ne
    by (intro countInvI) (simp_all add: exitedDone_update_other)
next
  case (completed w chunk i)
  note inv = countInvD [OF assms(3)]
  from completed have "w \<notin> exitedDone (workers s)"
    by (simp add: exitedDone_def)
  with inv(2) have fresh: "w \<notin> set (doneSenders (received s @ inbox s))"
    by simp
  show ?thesis
    unfolding completed(1)
  proof (rule countInvI)
    let ?s' = "s\<lparr>workers := (workers s)[w := Exited True], inbox := inbox s @ [(w, DONE)]\<rparr>"
    have ds: "doneSenders (received ?s' @ inbox ?s') = doneSenders (received s @ inbox s) @ [w]"
      by (simp add: doneSenders_append doneSenders_single)
    show "distinct (doneSenders (received ?s' @ inbox ?s'))"
      unfolding ds using inv(1) fresh by simp
    show "set (doneSenders (received ?s' @ inbox ?s')) = exitedDone (workers ?s')"
      unfolding ds using inv(2) completed(2) by (simp add: exitedDone_update_done)
    show "completedWorkers ?s' = length (doneSenders (received ?s'))"
      using inv(3) by simp
    show "completedWorkers ?s' = length (workers ?s')" if "resolved ?s'"
      using that inv(4) by simp
  qed
next
  case (deliver w message rest)
  note inv = countInvD [OF assms(3)]
  let ?s1 = "s\<lparr>inbox := rest\<rparr>"
  have all: "doneSenders (received s @ inbox s) =
      doneSenders (received s) @ doneSenders [(w, message)] @ doneSenders rest"
    using deliver(2) by (simp add: doneSenders_def)
  have bound: "length (doneSenders (received s @ inbox s)) \<le> length (workers s)"
    using inv(1) inv(2) by (intro distinct_bounded_length) simp_all
  have rcv: "received s' = received s @ [(w, message)]" and inb: "inbox s' = rest"
    and wks: "workers s' = workers s"
    unfolding deliver(1) by (simp_all add: onMessage_def Let_def)
  have cnt: "completedWorkers s' = completedWorkers s + length (doneSenders [(w, message)])"
    unfolding deliver(1) by (simp add: onMessage_def Let_def doneSenders_single)
  have res: "resolved s' \<longleftrightarrow> resolved s \<or> (message = DONE \<and> Suc (completedWorkers s) = length (workers s))"
    unfolding deliver(1) by (auto simp add: onMessage_def Let_def)
  show ?thesis
  proof (rule countInvI)
    have same: "doneSenders (received s' @ inbox s') = doneSenders (received s @ inbox s)"
      unfolding rcv inb deliver(2) by simp
    show "distinct (doneSenders (received s' @ inbox s'))"
      unfolding same by (rule inv(1))
    show "set (doneSenders (received s' @ inbox s')) = exitedDone (workers s')"
      unfolding same wks by (rule inv(2))
    show "completedWorkers s' = length (doneSenders (received s'))"
      unfolding cnt rcv using inv(3) by (simp add: doneSenders_append)
    show "completedWorkers s' = length (workers s')" if "resolved s'"
    proof (cases "message = DONE")
      case False
      with that res inv(4) show ?thesis
        unfolding cnt wks by (simp add: doneSenders_single)
    next
      case True
      from bound inv(3) True have "Suc (completedWorkers s) \<le> length (workers s)"
        unfolding all by (simp add: doneSenders_single)
      with inv(4) have "\<not> resolved s" by auto
      with that res True show ?thesis
        unfolding cnt wks by (simp add: doneSenders_single)
    qed
  qed
next
  case finish
  note inv = countInvD [OF assms(3)]
  show ?thesis
    unfolding finish(1) using inv by (intro countInvI) simp_all
qed

lemma reachable_countInv: "reachable K pd s \<Longrightarrow> countInv s"
  unfolding reachable_def
proof (induction rule: rtranclp_induct)
  case base
  show ?case by (rule countInv_init)
next
  case (step y z)
  from step(1) have "reachable K pd y" by (simp add: reachable_def)
  then have "basicInv pd y" by (rule reachable_basicInv)
  with step show ?case by (blast intro: countInv_step)
qed

lemma exited_stable_step:
  assumes "step K pd s s'" and "basicInv pd s" and "w < length (workers s)"
    and "workers s ! w = Exited b"
  shows "w < length (workers s') \<and> workers s' ! w = Exited b"
  using assms(1)
proof (cases rule: step.cases)
  case early
  with assms show ?thesis by simp
next
  case (spawn productChunks ws)
  with assms(2) have "s = init pd" by (simp add: basicInv_def)
  with assms(3) show ?thesis by (simp add: init_def)
next
  case (processing v chunk i)
  with assms(4) have "v \<noteq> w" by auto
  with processing assms(3,4) show ?thesis by simp
next
  case (generated v chunk i outputPath)
  with assms(4) have "v \<noteq> w" by auto
  with generated assms(3,4) show ?thesis by simp
next
  case (completed v chunk i)
  with assms(4) have "v \<noteq> w" by auto
  with completed assms(3,4) show ?thesis by simp
next
  case (failed v chunk i message)
  with assms(4) have "v \<noteq> w" by auto
  with failed assms(3,4) show ?thesis by simp
next
  case (killed v chunk i)
  with assms(4) have "v \<noteq> w" by auto
  with killed assms(3,4) show ?thesis by simp
next
  case (deliver v message rest)
  with assms(3,4) show ?thesis by (simp add: onMessage_def Let_def)
next
  case finish
  with assms(3,4) show ?thesis by simp
qed

lemma reachable_step: "reachable K pd s \<Longrightarrow> step K pd s s' \<Longrightarrow> reachable K pd s'"
  unfolding reachable_def by (rule rtranclp.rtrancl_into_rtrancl)

lemma reachable_steps:
  "reachable K pd s \<Longrightarrow> (step K pd)\<^sup>*\<^sup>* s s' \<Longrightarrow> reachable K pd s'"
  unfolding reachable_def by (rule rtranclp_trans)

lemma exited_stable:
  assumes "(step K pd)\<^sup>*\<^sup>* s s'" and "reachable K pd s" and "w < length (workers s)"
    and "workers s ! w = Exited b"
  shows "reachable K pd s' \<and> w < length (workers s') \<and> workers s' ! w = Exited b"
  using assms
proof (induction rule: rtranclp_induct)
  case base
  then show ?case by simp
next
  case (step y z)
  then have y: "reachable K pd y" "w < length (workers y)" "workers y ! w = Exited b"
    by simp_all
  from y(1) have "basicInv pd y" by (rule reachable_basicInv)
  with step(2) y show ?case
    by (auto intro: reachable_step dest: exited_stable_step)
qed

lemma all_done_received:
  assumes "reachable K pd s" and "resolved s" and "w < length (workers s)"
  shows "(w, DONE) \<in> set (received s) \<and> workers s ! w = Exited True"
proof -
  note inv = countInvD [OF reachable_countInv [OF assms(1)]]
  let ?r = "doneSenders (received s)"
  have "distinct ?r" and sub: "set ?r \<subseteq> exitedDone (workers s)"
    using inv(1,2) by (auto simp add: doneSenders_append)
  moreover have len: "length ?r = length (workers s)"
    using inv(3) inv(4) [OF assms(2)] by simp
  ultimately have "card (set ?r) = card {..< length (workers s)}"
    by (simp add: distinct_card)
  moreover have "set ?r \<subseteq> {..< length (workers s)}"
    using sub by (auto simp add: exitedDone_def)
  ultimately have "set ?r = {..< length (workers s)}"
    by (intro card_subset_eq) simp_all
  with assms(3) have w: "w \<in> set ?r" by simp
  then have "(w, DONE) \<in> set (received s)"
    by (auto simp add: doneSenders_def)
  moreover from w sub have "workers s ! w = Exited True"
    by (auto simp add: exitedDone_def)
  ultimately show ?thesis by simp
qed

lemma stopped_resolved:
  assumes "reachable K pd s" and "phase s = Persisted \<or> (0 < serverStarts s \<and> \<not> serverListening s)"
  shows "resolved s \<and> phase s = Persisted"
proof -
  from assms(1) have b: "basicInv pd s" by (rule reachable_basicInv)
  with assms(2) show ?thesis
    by (cases "phase s") (auto simp add: basicInv_def init_def)
qed

lemma pending_exData: "productsToProcess exData = [exB]"
  by (simp add: exData_def productsToProcess_def needsImage_def strictNotEqual_def exA_def exB_def)

lemma chunkArray_exData: "chunkArray exData [exB] 1 = Inr [[exItem]]"
  by (simp add: chunkArray_def findIndex_def matchesItem_def exItem_def exData_def exA_def exB_def
      of_ascii_def)

lemmas run_defs = runSpawned_def runProcessing_def runGenerated_def runCompleted_def
  runHeard1_def runHeard2_def runResolved_def runPersisted_def runFailed_def
  runFailedHeard_def init_def

lemma step_spawned: "step 1 exData (init exData) runSpawned"
proof -
  have "step 1 exData (init exData)
      ((init exData)\<lparr>phase := Awaiting, serverListening := True,
         serverStarts := Suc (serverStarts (init exData)),
         workers := [Running [exItem] 0], resolved := ([Running [exItem] 0] = [])\<rparr>)"
    by (rule step.spawn [where productChunks = "[[exItem]]"])
      (simp_all add: pending_exData chunkArray_exData init_def del: One_nat_def)
  then show ?thesis by (simp add: run_defs)
qed

lemma step_processing: "step 1 exData runSpawned runProcessing"
proof -
  have "step 1 exData runSpawned
      (runSpawned\<lparr>workers := (workers runSpawned)[0 := Capturing [exItem] 0],
         inbox := inbox runSpawned @ [(0, processingMessage ([exItem] ! 0))]\<rparr>)"
    by (rule step.processing) (simp_all add: run_defs)
  then show ?thesis by (simp add: run_defs)
qed

lemma step_generated: "step 1 exData runProcessing runGenerated"
proof -
  have "step 1 exData runProcessing
      (runProcessing\<lparr>workers := (workers runProcessing)[0 := Running [exItem] (Suc 0)],
         inbox := inbox runProcessing @ [(0, generatedMessage exPath)]\<rparr>)"
    by (rule step.generated) (simp_all add: run_defs)
  then show ?thesis by (simp add: run_defs)
qed

lemma step_completed: "step 1 exData runGenerated runCompleted"
proof -
  have "step 1 exData runGenerated
      (runGenerated\<lparr>workers := (workers runGenerated)[0 := Exited True],
         inbox := inbox runGenerated @ [(0, DONE)]\<rparr>)"
    by (rule step.completed [where chunk = "[exItem]" and i = 1]) (simp_all add: run_defs)
  then show ?thesis by (simp add: run_defs)
qed

lemma step_heard1: "step 1 exData runCompleted runHeard1"
proof -
  have "step 1 exData runCompleted
      (onMessage 0 (processingMessage exItem)
        (runCompleted\<lparr>inbox := [(0, generatedMessage exPath), (0, DONE)]\<rparr>))"
    by (rule step.deliver) (simp add: run_defs)
  then show ?thesis by (simp add: run_defs onMessage_def Let_def messages_not_DONE)
qed

lemma step_heard2: "step 1 exData runHeard1 runHeard2"
proof -
  have "step 1 exData runHeard1
      (onMessage 0 (generatedMessage exPath) (runHeard1\<lparr>inbox := [(0, DONE)]\<rparr>))"
    by (rule step.deliver) (simp add: run_defs)
  then show ?thesis by (simp add: run_defs onMessage_def Let_def messages_not_DONE)
qed

lemma step_resolved: "step 1 exData runHeard2 runResolved"
proof -
  have "step 1 exData runHeard2 (onMessage 0 DONE (runHeard2\<lparr>inbox := []\<rparr>))"
    by (rule step.deliver) (simp add: run_defs)
  then show ?thesis by (simp add: run_defs onMessage_def Let_def)
qed

lemma step_persisted: "step 1 exData runResolved runPersisted"
proof -
  have "step 1 exData runResolved
      (runResolved\<lparr>phase := Persisted, serverListening := False,
         store := updatedProducts exData, storeWrites := Suc (storeWrites runResolved)\<rparr>)"
    by (rule step.finish) (simp_all add: run_defs)
  then show ?thesis by (simp add: run_defs)
qed

lemma step_failed: "step 1 exData runSpawned runFailed"
proof -
  have "step 1 exData runSpawned
      (runSpawned\<lparr>workers := (workers runSpawned)[0 := Exited False],
         inbox := inbox runSpawned @ [(0, errorMessage exFailure)]\<rparr>)"
    by (rule step.failed [where chunk = "[exItem]" and i = 0]) (simp_all add: run_defs)
  then show ?thesis by (simp add: run_defs)
qed

lemma step_failedHeard: "step 1 exData runFailed runFailedHeard"
proof -
  have "step 1 exData runFailed
      (onMessage 0 (errorMessage exFailure) (runFailed\<lparr>inbox := []\<rparr>))"
    by (rule step.deliver) (simp add: run_defs)
  then show ?thesis by (simp add: run_defs onMessage_def Let_def messages_not_DONE)
qed

lemma reachable_init: "reachable K pd (init pd)"
  by (simp add: reachable_def)

lemma reachable_runPersisted: "reachable 1 exData runPersisted"
  by (intro reachable_step [OF _ step_persisted] reachable_step [OF _ step_resolved]
      reachable_step [OF _ step_heard2] reachable_step [OF _ step_heard1]
      reachable_step [OF _ step_completed] reachable_step [OF _ step_generated]
      reachable_step [OF _ step_processing] reachable_step [OF _ step_spawned] reachable_init)

lemma reachable_runFailed: "reachable 1 exData runFailed"
  by (intro reachable_step [OF _ step_failed] reachable_step [OF _ step_spawned] reachable_init)

text \<open>
  Claim C9.  In every state that a run reaches: if the orchestrator is past the wait (the
  store is rewritten, or the server that was started listens no more), then for every worker
  that was created the listener has run on a \<^verbatim>\<open>'DONE'\<close> of that worker; and once a worker
  has ended without posting \<^verbatim>\<open>'DONE'\<close>, every state that the run can still reach has the
  orchestrator waiting, the server listening and the store not rewritten: nothing ends the
  wait.
\<close>

theorem await_all_workers:
  assumes "reachable K pd s"
  shows "(phase s = Persisted \<or> (0 < serverStarts s \<and> \<not> serverListening s) \<longrightarrow>
           (\<forall>w < length (workers s). (w, DONE) \<in> set (received s)))
    \<and> (\<forall>w s'. w < length (workers s) \<and> workers s ! w = Exited False
           \<and> (step K pd)\<^sup>*\<^sup>* s s' \<longrightarrow>
           phase s' = Awaiting \<and> serverListening s' \<and> storeWrites s' = 0 \<and> store s' = pd)"
proof (intro conjI impI allI)
  fix w
  assume "phase s = Persisted \<or> (0 < serverStarts s \<and> \<not> serverListening s)"
    and "w < length (workers s)"
  with assms show "(w, DONE) \<in> set (received s)"
    using stopped_resolved all_done_received by blast
next
  fix w s'
  assume a: "w < length (workers s) \<and> workers s ! w = Exited False \<and> (step K pd)\<^sup>*\<^sup>* s s'"
  with assms have r: "reachable K pd s'" and w: "w < length (workers s')"
    and x: "workers s' ! w = Exited False"
    using exited_stable [of K pd s s' w False] by simp_all
  from r have b: "basicInv pd s'" by (rule reachable_basicInv)
  have "\<not> resolved s'"
    using all_done_received [OF r _ w] x by auto
  moreover from b w have "phase s' \<noteq> Start" "phase s' \<noteq> EarlyExit"
    by (auto simp add: basicInv_def init_def)
  ultimately have "phase s' = Awaiting"
    using b by (cases "phase s'") (simp_all add: basicInv_def)
  with b show "phase s' = Awaiting" "serverListening s'" "storeWrites s' = 0" "store s' = pd"
    by (simp_all add: basicInv_def)
qed

theorem await_all_workers_witness:
  "reachable 1 exData runPersisted \<and> phase runPersisted = Persisted
   \<and> (0, DONE) \<in> set (received runPersisted)
   \<and> reachable 1 exData runFailed \<and> workers runFailed ! 0 = Exited False
   \<and> (step 1 exData)\<^sup>*\<^sup>* runFailed runFailedHeard
   \<and> phase runFailedHeard = Awaiting \<and> serverListening runFailedHeard
   \<and> storeWrites runFailedHeard = 0"
proof -
  have p: "phase runPersisted = Persisted" by (simp add: run_defs)
  have f: "0 < length (workers runFailed)" "workers runFailed ! 0 = Exited False"
    by (simp_all add: run_defs)
  have s: "(step 1 exData)\<^sup>*\<^sup>* runFailed runFailedHeard"
    using step_failedHeard by (rule r_into_rtranclp)
  have w: "0 < length (workers runPersisted)" by (simp add: run_defs)
  from await_all_workers [OF reachable_runPersisted] p w
  have "(0, DONE) \<in> set (received runPersisted)"
    by blast
  moreover from await_all_workers [OF reachable_runFailed] f s
  have "phase runFailedHeard = Awaiting \<and> serverListening runFailedHeard
      \<and> storeWrites runFailedHeard = 0"
    by blast
  ultimately show ?thesis
    using reachable_runPersisted reachable_runFailed p f s by blast
qed

text \<open>
  Claim C7.  When the selection is empty, \<open>main\<close> returns from its first step, and in every
  state that the run reaches no server was started, no worker was created and the store was
  not written: it is the collection that was loaded.
\<close>

theorem nothing_pending_no_effects:
  assumes "productsToProcess pd = []"
  shows "step K pd (init pd) ((init pd)\<lparr>phase := EarlyExit\<rparr>)
    \<and> (\<forall>s. reachable K pd s \<longrightarrow>
          serverStarts s = 0 \<and> \<not> serverListening s \<and> workers s = [] \<and> storeWrites s = 0
          \<and> store s = pd)"
proof (intro conjI allI impI)
  show "step K pd (init pd) ((init pd)\<lparr>phase := EarlyExit\<rparr>)"
    using assms by (intro step.early) (simp add: init_def)
next
  fix s
  assume "reachable K pd s"
  then have "basicInv pd s" by (rule reachable_basicInv)
  with assms have "s = init pd \<or> s = (init pd)\<lparr>phase := EarlyExit\<rparr>"
    by (cases "phase s") (simp_all add: basicInv_def)
  then show "serverStarts s = 0" "\<not> serverListening s" "workers s = []" "storeWrites s = 0"
    "store s = pd"
    by (auto simp add: init_def)
qed

theorem nothing_pending_no_effects_witness:
  "productsToProcess [exA] = []
   \<and> reachable 3 [exA] ((init [exA])\<lparr>phase := EarlyExit\<rparr>)
   \<and> serverStarts ((init [exA])\<lparr>phase := EarlyExit\<rparr>) = 0
   \<and> workers ((init [exA])\<lparr>phase := EarlyExit\<rparr>) = []
   \<and> store ((init [exA])\<lparr>phase := EarlyExit\<rparr>) = [exA]"
proof -
  have h: "productsToProcess [exA] = []"
    by (simp add: productsToProcess_def needsImage_def strictNotEqual_def exA_def)
  note t = nothing_pending_no_effects [OF h, of 3]
  from t have r: "reachable 3 [exA] ((init [exA])\<lparr>phase := EarlyExit\<rparr>)"
    using reachable_step [OF reachable_init] by blast
  with t h show ?thesis by blast
qed

text \<open>
  Claim C2.  The collection that is written has the length of the loaded one, and at every
  position the loaded record with \<open>previous_price\<close> set to its \<open>current_price\<close>, the other
  fields being those of the loaded record; this is so at every position, pending or not.
  Every run that reaches the rewrite leaves exactly this collection in the store.
\<close>

theorem updatedProducts_all_records:
  "length (updatedProducts pd) = length pd
   \<and> (\<forall>i < length pd.
         updatedProducts pd ! i = (pd ! i)\<lparr>previous_price := Val (current_price (pd ! i))\<rparr>
         \<and> previous_price (updatedProducts pd ! i) = Val (current_price (updatedProducts pd ! i))
         \<and> productCode (updatedProducts pd ! i) = productCode (pd ! i)
         \<and> variation_suffix (updatedProducts pd ! i) = variation_suffix (pd ! i)
         \<and> current_price (updatedProducts pd ! i) = current_price (pd ! i))
   \<and> (\<forall>K s. reachable K pd s \<and> phase s = Persisted \<longrightarrow> store s = updatedProducts pd)"
proof -
  have "store s = updatedProducts pd" if "reachable K pd s" "phase s = Persisted" for K s
    using reachable_basicInv [OF that(1)] that(2) by (simp add: basicInv_def)
  moreover have "length (updatedProducts pd) = length pd"
    by (simp add: updatedProducts_def)
  moreover have "\<forall>i < length pd.
         updatedProducts pd ! i = (pd ! i)\<lparr>previous_price := Val (current_price (pd ! i))\<rparr>
         \<and> previous_price (updatedProducts pd ! i) = Val (current_price (updatedProducts pd ! i))
         \<and> productCode (updatedProducts pd ! i) = productCode (pd ! i)
         \<and> variation_suffix (updatedProducts pd ! i) = variation_suffix (pd ! i)
         \<and> current_price (updatedProducts pd ! i) = current_price (pd ! i)"
    by (simp add: updatedProducts_def)
  ultimately show ?thesis by blast
qed

theorem updatedProducts_all_records_witness:
  "reachable 1 exData runPersisted \<and> phase runPersisted = Persisted
   \<and> exA \<notin> set (productsToProcess exData)
   \<and> store runPersisted = [exA, exB\<lparr>previous_price := Val (39 / 2)\<rparr>]"
proof -
  have p: "phase runPersisted = Persisted" by (simp add: run_defs)
  have l: "length exData = 2" by (simp add: exData_def)
  note t = updatedProducts_all_records [of exData]
  from t reachable_runPersisted p have s: "store runPersisted = updatedProducts exData"
    by blast
  from t l have "updatedProducts exData ! 0 = (exData ! 0)\<lparr>previous_price := Val (current_price (exData ! 0))\<rparr>"
    and "updatedProducts exData ! 1 = (exData ! 1)\<lparr>previous_price := Val (current_price (exData ! 1))\<rparr>"
    and "length (updatedProducts exData) = 2"
    by simp_all
  then have "updatedProducts exData = [exA, exB\<lparr>previous_price := Val (39 / 2)\<rparr>]"
    by (intro nth_equalityI) (auto simp add: exData_def exA_def exB_def less_Suc_eq numeral_2_eq_2)
  moreover have "exA \<notin> set (productsToProcess exData)"
    by (simp add: pending_exData exA_def exB_def)
  ultimately show ?thesis
    using s reachable_runPersisted p by simp
qed

section \<open>Reading the index parameter\<close>

lemma radixDigitTable_eq:
  "radixDigitTable =
    [(48, 0), (49, 1), (50, 2), (51, 3), (52, 4), (53, 5), (54, 6), (55, 7), (56, 8), (57, 9),
     (97, 10), (98, 11), (99, 12), (100, 13), (101, 14), (102, 15),
     (65, 10), (66, 11), (67, 12), (68, 13), (69, 14), (70, 15)]"
  by (simp add: radixDigitTable_def of_ascii_def upt_rec)

lemma digitValue_nth: "d < 10 \<Longrightarrow> digitValue (westernDigits ! d) = d"
proof -
  assume "d < 10"
  then consider "d = 0" | "d = 1" | "d = 2" | "d = 3" | "d = 4" | "d = 5" | "d = 6" | "d = 7"
    | "d = 8" | "d = 9"
    using lt_10_cases by blast
  then show ?thesis
    by cases (simp_all add: westernDigits_eq digitValue_def upt_10)
qed

lemma radixDigit_10_nth: "d < 10 \<Longrightarrow> radixDigit 10 (westernDigits ! d) = Some d"
proof -
  assume "d < 10"
  then consider "d = 0" | "d = 1" | "d = 2" | "d = 3" | "d = 4" | "d = 5" | "d = 6" | "d = 7"
    | "d = 8" | "d = 9"
    using lt_10_cases by blast
  then show ?thesis
    by cases (simp_all add: westernDigits_eq radixDigit_def radixDigitTable_eq)
qed

lemma radixDigit_10_other: "\<not> isDecimalDigit c \<Longrightarrow> radixDigit 10 c = None"
  by (simp add: radixDigit_def radixDigitTable_eq isDecimalDigit_iff)

lemma radixDigit_10:
  "radixDigit 10 c = (if isDecimalDigit c then Some (digitValue c) else None)"
proof (cases "isDecimalDigit c")
  case True
  then obtain d where "d < 10" "c = westernDigits ! d"
    using isDecimalDigit_nth by blast
  with True show ?thesis
    by (simp add: radixDigit_10_nth digitValue_nth)
next
  case False
  then show ?thesis by (simp add: radixDigit_10_other)
qed


lemma isDecimalDigit_westernDigits: "d < 10 \<Longrightarrow> isDecimalDigit (westernDigits ! d)"
  unfolding isDecimalDigit_def by (rule nth_mem) (simp add: westernDigits_eq)

lemma decimalDigits_all_digits: "c \<in> set (decimalDigits n) \<Longrightarrow> isDecimalDigit c"
proof (induction n arbitrary: c rule: decimalDigits.induct)
  case (1 n)
  show ?case
  proof (cases "n < 10")
    case True
    with "1.prems" show ?thesis
      by (simp add: decimalDigits.simps [of n] isDecimalDigit_westernDigits)
  next
    case False
    with "1.prems" "1.IH" show ?thesis
      by (auto simp add: decimalDigits.simps [of n] isDecimalDigit_westernDigits)
  qed
qed

lemma decimalDigits_nonempty: "decimalDigits n \<noteq> []"
  by (simp add: decimalDigits.simps [of n])

lemma radixValue_snoc: "radixValue R (ds @ [c]) = radixValue R ds * R + the (radixDigit R c)"
  by (simp add: radixValue_def)

lemma radixValue_decimalDigits: "radixValue 10 (decimalDigits n) = n"
proof (induction n rule: decimalDigits.induct)
  case (1 n)
  show ?case
  proof (cases "n < 10")
    case True
    then show ?thesis
      by (simp add: decimalDigits.simps [of n] radixValue_def radixDigit_10_nth)
  next
    case False
    with "1.IH" show ?thesis
      by (simp add: decimalDigits.simps [of n] radixValue_snoc radixDigit_10_nth)
  qed
qed

lemma digit_not_space_or_sign:
  "isDecimalDigit c \<Longrightarrow> \<not> isWhiteSpace c \<and> c \<noteq> 0x2B \<and> c \<noteq> 0x2D"
  by (auto simp add: isDecimalDigit_iff isWhiteSpace_def whiteSpaceChars_def)

lemma takeWhile_digits:
  assumes "\<forall>c \<in> set ds. isDecimalDigit c" and "rest = [] \<or> \<not> isDecimalDigit (hd rest)"
  shows "takeWhile (\<lambda>c. radixDigit 10 c \<noteq> None) (ds @ rest) = ds"
proof -
  have "takeWhile (\<lambda>c. radixDigit 10 c \<noteq> None) rest = []"
    using assms(2) by (cases rest) (simp_all add: radixDigit_10)
  moreover have "takeWhile (\<lambda>c. radixDigit 10 c \<noteq> None) (ds @ rest) =
      ds @ takeWhile (\<lambda>c. radixDigit 10 c \<noteq> None) rest"
    using assms(1) by (intro takeWhile_append2) (simp add: radixDigit_10)
  ultimately show ?thesis by simp
qed

lemma parseInt_decimal_prefix:
  assumes "ds \<noteq> []" and "\<forall>c \<in> set ds. isDecimalDigit c"
    and "rest = [] \<or> \<not> isDecimalDigit (hd rest)" and "\<not> hasHexPrefix (ds @ rest)"
  shows "parseInt (ds @ rest) = Some (int (radixValue 10 ds))"
proof -
  from assms(1) obtain d ds' where ds: "ds = d # ds'" by (cases ds) auto
  with assms(2) have d: "isDecimalDigit d" by simp
  then have nd: "\<not> isWhiteSpace d" "d \<noteq> 0x2B" "d \<noteq> 0x2D"
    using digit_not_space_or_sign by blast+
  have S: "dropWhile isWhiteSpace (ds @ rest) = ds @ rest"
    using nd(1) by (simp add: ds)
  have hd: "hd (ds @ rest) = d" by (simp add: ds)
  have Z: "takeWhile (\<lambda>c. radixDigit 10 c \<noteq> None) (ds @ rest) = ds"
    using assms(2,3) by (rule takeWhile_digits)
  show ?thesis
    unfolding parseInt_def S Let_def using assms(1,4) nd hd Z by simp
qed

lemma parseInt_minus_decimal_prefix:
  assumes "ds \<noteq> []" and "\<forall>c \<in> set ds. isDecimalDigit c"
    and "rest = [] \<or> \<not> isDecimalDigit (hd rest)" and "\<not> hasHexPrefix (ds @ rest)"
  shows "parseInt (0x2D # ds @ rest) = Some (- int (radixValue 10 ds))"
proof -
  have S: "dropWhile isWhiteSpace (0x2D # ds @ rest) = 0x2D # ds @ rest"
    by (simp add: isWhiteSpace_def whiteSpaceChars_def)
  have Z: "takeWhile (\<lambda>c. radixDigit 10 c \<noteq> None) (ds @ rest) = ds"
    using assms(2,3) by (rule takeWhile_digits)
  show ?thesis
    unfolding parseInt_def S Let_def using assms(1,4) Z by simp
qed

lemma hasHexPrefix_second:
  "hasHexPrefix s \<Longrightarrow> 2 \<le> length s \<and> s ! 0 = 48 \<and> (s ! 1 = 120 \<or> s ! 1 = 88)"
proof -
  assume h: "hasHexPrefix s"
  then have l: "2 \<le> length s" by (simp add: hasHexPrefix_def)
  then obtain a b t where s: "s = a # b # t"
    by (cases s; cases "tl s") auto
  with h show ?thesis
    by (auto simp add: hasHexPrefix_def of_ascii_def)
qed

lemma digits_no_hex_prefix:
  assumes "\<forall>c \<in> set ds. isDecimalDigit c"
  shows "\<not> hasHexPrefix ds"
proof
  assume "hasHexPrefix ds"
  then have l: "2 \<le> length ds" and x: "ds ! 1 = 120 \<or> ds ! 1 = 88"
    using hasHexPrefix_second by blast+
  from l have "ds ! 1 \<in> set ds" by (intro nth_mem) simp
  with assms have "isDecimalDigit (ds ! 1)" by blast
  with x show False by (auto simp add: isDecimalDigit_iff)
qed

lemma parseInt_decimalDigits: "parseInt (decimalDigits n) = Some (int n)"
proof -
  have a: "\<forall>c \<in> set (decimalDigits n). isDecimalDigit c"
    using decimalDigits_all_digits by blast
  have "parseInt (decimalDigits n @ []) = Some (int (radixValue 10 (decimalDigits n)))"
    using a digits_no_hex_prefix [OF a]
    by (intro parseInt_decimal_prefix) (simp_all add: decimalDigits_nonempty)
  then show ?thesis by (simp add: radixValue_decimalDigits)
qed

lemma parseInt_non_numeric:
  assumes "param = [] \<or> (\<not> isWhiteSpace (hd param) \<and> hd param \<noteq> 0x2B \<and> hd param \<noteq> 0x2D
      \<and> \<not> isDecimalDigit (hd param))"
  shows "parseInt param = None"
proof (cases param)
  case Nil
  then show ?thesis by (simp add: parseInt_def hasHexPrefix_def)
next
  case (Cons c cs)
  with assms have c: "\<not> isWhiteSpace c" "c \<noteq> 0x2B" "c \<noteq> 0x2D" "\<not> isDecimalDigit c"
    by simp_all
  have nh: "\<not> hasHexPrefix (c # cs)"
    using c(4) hasHexPrefix_second [of "c # cs"] by (auto simp add: isDecimalDigit_iff)
  show ?thesis
    unfolding parseInt_def Let_def Cons using c nh by (simp add: radixDigit_10)
qed

lemma parseInt_samples:
  "parseInt (of_ascii ''abc'') = None"
  "parseInt (of_ascii ''0x1'') = Some 1"
  "parseInt (of_ascii ''0'') = Some 0"
  "parseInt (of_ascii ''7'') = Some 7"
  "parseInt (of_ascii ''-1'') = Some (- 1)"
  "parseInt (of_ascii ''5abc'') = Some 5"
  by (simp_all add: parseInt_def of_ascii_def isWhiteSpace_def whiteSpaceChars_def
      hasHexPrefix_def radixDigit_def radixDigitTable_eq radixValue_def)

section \<open>Formatting the price\<close>

lemma decimalDigits_small: "n < 10 \<Longrightarrow> decimalDigits n = [westernDigits ! n]"
  by (simp add: decimalDigits.simps [of n])

lemma decimalDigits_step:
  "10 \<le> n \<Longrightarrow> decimalDigits n = decimalDigits (n div 10) @ [westernDigits ! (n mod 10)]"
  by (simp add: decimalDigits.simps [of n])

lemma decimalDigits_two_last:
  assumes "100 \<le> n"
  shows "decimalDigits n =
    decimalDigits (n div 100) @ [westernDigits ! (n div 10 mod 10), westernDigits ! (n mod 10)]"
proof -
  from assms have a: "10 \<le> n" and b: "10 \<le> n div 10" by simp_all
  have c: "n div 10 div 10 = n div 100" by (simp add: div_mult2_eq)
  show ?thesis
    by (simp add: decimalDigits_step [OF a] decimalDigits_step [OF b] c)
qed

lemma westernDigits_0: "westernDigits ! 0 = 0x30"
  by (simp add: westernDigits_eq)

lemma splitDigits:
  fixes n :: nat
  defines "m \<equiv> decimalDigits n"
  defines "k \<equiv> length m"
  defines "m' \<equiv> (if k \<le> 2 then replicate (3 - k) (0x30 :: jschar) @ m else m)"
  defines "k' \<equiv> (if k \<le> 2 then 3 else k)"
  shows "take (k' - 2) m' = decimalDigits (n div 100)
    \<and> drop (k' - 2) m' = [westernDigits ! (n div 10 mod 10), westernDigits ! (n mod 10)]"
proof -
  consider "n < 10" | "10 \<le> n" "n < 100" | "100 \<le> n" by linarith
  then show ?thesis
  proof cases
    case 1
    then have "m = [westernDigits ! n]" by (simp add: m_def decimalDigits_small)
    with 1 show ?thesis
      by (simp add: m'_def k'_def k_def decimalDigits_small westernDigits_0 numeral_2_eq_2)
  next
    case 2
    then have "n div 10 < 10" by simp
    with 2 have "m = [westernDigits ! (n div 10), westernDigits ! (n mod 10)]"
      by (simp add: m_def decimalDigits_step decimalDigits_small)
    with 2 show ?thesis
      by (simp add: m'_def k'_def k_def decimalDigits_small westernDigits_0)
  next
    case 3
    then have m: "m = decimalDigits (n div 100) @
        [westernDigits ! (n div 10 mod 10), westernDigits ! (n mod 10)]"
      by (simp add: m_def decimalDigits_two_last)
    have "decimalDigits (n div 100) \<noteq> []" by (rule decimalDigits_nonempty)
    then have "0 < length (decimalDigits (n div 100))" by simp
    with m show ?thesis
      by (simp add: m'_def k'_def k_def)
  qed
qed

lemma toFixed2_twoDecimals:
  assumes "\<bar>x\<bar> < 10 ^ 21"
  shows "toFixed2 nts x = twoDecimals x"
proof -
  have abs: "(if x < 0 then - x else x) = \<bar>x\<bar>" by simp
  from assms have small: "\<not> 10 ^ 21 \<le> \<bar>x\<bar>" by simp
  show ?thesis
    unfolding toFixed2_def twoDecimals_def abs Let_def
    using small splitDigits [of "nat \<lfloor>\<bar>x\<bar> * 100 + 1 / 2\<rfloor>"]
    by (simp add: Let_def)
qed

lemma twoDecimals_samples:
  "twoDecimals (2800676018271027 / 140737488355328) = of_ascii ''19.90''"
  "twoDecimals (39 / 2) = of_ascii ''19.50''"
proof -
  have "\<lfloor>\<bar>2800676018271027 / 140737488355328 :: rat\<bar> * 100 + 1 / 2\<rfloor> = 1990"
    by (simp add: floor_eq_iff)
  then have n1: "nat \<lfloor>\<bar>2800676018271027 / 140737488355328 :: rat\<bar> * 100 + 1 / 2\<rfloor> = 1990"
    by simp
  have "\<lfloor>\<bar>39 / 2 :: rat\<bar> * 100 + 1 / 2\<rfloor> = 1950"
    by (simp add: floor_eq_iff)
  then have n2: "nat \<lfloor>\<bar>39 / 2 :: rat\<bar> * 100 + 1 / 2\<rfloor> = 1950"
    by simp
  have d: "decimalDigits 19 = of_ascii ''19''"
    by (simp add: decimalDigits_step decimalDigits_small westernDigits_eq of_ascii_def)
  show "twoDecimals (2800676018271027 / 140737488355328) = of_ascii ''19.90''"
    unfolding twoDecimals_def n1 Let_def by (simp add: d) (simp add: westernDigits_eq of_ascii_def)
  show "twoDecimals (39 / 2) = of_ascii ''19.50''"
    unfolding twoDecimals_def n2 Let_def by (simp add: d) (simp add: westernDigits_eq of_ascii_def)
qed

section \<open>The product route\<close>

lemma imageFileName_cases:
  "imageFileName p = productCode p
     @ (case variation_suffix p of Val s \<Rightarrow> (if s = [] then [] else of_ascii ''_'' @ s) | _ \<Rightarrow> [])
     @ of_ascii ''.jpg''"
  by (cases "variation_suffix p") (simp_all add: imageFileName_def truthy_def valueOf_def)

lemma productRoute_in_range:
  assumes "parseInt param = Some (int i)" and "i < length pd"
  shows "productRoute nts pd param = productPage nts (pd ! i)"
  using assms by (simp add: productRoute_def)

lemma productRoute_notFound:
  assumes "parseInt param = None \<or> (\<exists>i. parseInt param = Some i \<and> (i < 0 \<or> int (length pd) \<le> i))"
  shows "productRoute nts pd param =
    \<lparr>status = 404, body = Text (of_ascii ''Product not found'')\<rparr>"
  using assms by (auto simp add: productRoute_def notFound_def)

subsection \<open>The rendered page\<close>

lemma ejsScan_text_step:
  "c \<noteq> 0x3C \<or> (s \<noteq> [] \<and> hd s \<noteq> 0x25) \<Longrightarrow>
   ejsScan d None (c # s) = map_option ((#) c) (ejsScan d None s)"
  by (subst ejsScan.simps) (cases s; auto simp add: of_ascii_def)

lemma ejsScan_text:
  "noTagOpen lit \<Longrightarrow> rest \<noteq> [] \<Longrightarrow>
   ejsScan d None (lit @ rest) = map_option ((@) lit) (ejsScan d None rest)"
proof (induction lit rule: noTagOpen.induct)
  case 1
  show ?case by (simp add: option.map_ident)
next
  case (2 c)
  then show ?case
    by (simp add: ejsScan_text_step option.map_comp comp_def option.map_ident)
next
  case (3 c c' cs)
  then show ?case
    by (simp add: ejsScan_text_step option.map_comp comp_def)
qed

lemma noTagOpen_head: "noTagOpen templateHead"
  by (simp add: templateHead_def of_ascii_def)

lemma noTagOpen_middle: "noTagOpen templateMiddle"
  by (simp add: templateMiddle_def of_ascii_def)


lemma noTagOpen_tail: "noTagOpen templateTail"
  by (simp add: templateTail_def of_ascii_def)

lemma ejsScan_text_end: "noTagOpen lit \<Longrightarrow> ejsScan d None lit = Some lit"
proof (induction lit rule: noTagOpen.induct)
  case 1
  show ?case by (simp add: ejsScan.simps)
next
  case (2 c)
  then show ?case
    by (simp add: ejsScan.simps [of d None "[c]"] ejsScan.simps [of d None "[]"] of_ascii_def)
next
  case (3 c c' cs)
  then show ?case
    by (simp add: ejsScan_text_step)
qed

lemma ejsScan_open: "ejsScan d None (of_ascii ''<%='' @ s) = ejsScan d (Some []) s"
  by (subst ejsScan.simps) (simp add: of_ascii_def)

lemma ejsScan_expr:
  "0x25 \<notin> set name \<Longrightarrow>
   ejsScan d (Some acc) (name @ of_ascii ''%>'' @ rest) =
     (case lookupData d (trim (acc @ name)) of
        None \<Rightarrow> None
      | Some v \<Rightarrow> map_option ((@) (escapeXML v)) (ejsScan d None rest))"
proof (induction name arbitrary: acc)
  case Nil
  show ?case
    by (subst ejsScan.simps) (simp add: of_ascii_def split: option.split)
next
  case (Cons c cs)
  then have c: "c \<noteq> 0x25" and cs: "0x25 \<notin> set cs" by auto
  have "ejsScan d (Some acc) ((c # cs) @ of_ascii ''%>'' @ rest) =
      ejsScan d (Some (acc @ [c])) (cs @ of_ascii ''%>'' @ rest)"
    using c by (subst ejsScan.simps) (cases cs; simp add: of_ascii_def)
  with Cons.IH [OF cs, of "acc @ [c]"] show ?case by simp
qed

lemma ejsScan_tag:
  assumes "0x25 \<notin> set name"
  shows "ejsScan d None (of_ascii ''<%='' @ name @ of_ascii ''%>'' @ rest) =
     (case lookupData d (trim name) of
        None \<Rightarrow> None
      | Some v \<Rightarrow> map_option ((@) (escapeXML v)) (ejsScan d None rest))"
  using ejsScan_expr [OF assms, of d "[]" rest] by (simp add: ejsScan_open)

lemma tag_names:
  "of_ascii ''<%= imageUrl %>'' = of_ascii ''<%='' @ of_ascii '' imageUrl '' @ of_ascii ''%>''"
  "of_ascii ''<%= priceInArabic %>'' =
     of_ascii ''<%='' @ of_ascii '' priceInArabic '' @ of_ascii ''%>''"
  "0x25 \<notin> set (of_ascii '' imageUrl '')" "0x25 \<notin> set (of_ascii '' priceInArabic '')"
  "lookupData d (trim (of_ascii '' imageUrl '')) = Some (imageUrl d)"
  "lookupData d (trim (of_ascii '' priceInArabic '')) = Some (priceInArabic d)"
  by (simp_all add: of_ascii_def trim_def isWhiteSpace_def whiteSpaceChars_def lookupData_def)

lemma ejsRender_htmlTemplate:
  "ejsRender htmlTemplate d =
     Some (templateHead @ escapeXML (imageUrl d) @ templateMiddle
           @ escapeXML (priceInArabic d) @ templateTail)"
proof -
  let ?t2 = "of_ascii ''<%='' @ of_ascii '' priceInArabic '' @ of_ascii ''%>'' @ templateTail"
  let ?t1 = "of_ascii ''<%='' @ of_ascii '' imageUrl '' @ of_ascii ''%>'' @ templateMiddle @ ?t2"
  have ne: "?t1 \<noteq> []" "?t2 \<noteq> []" by (simp_all add: of_ascii_def)
  have t: "htmlTemplate = templateHead @ ?t1"
    by (simp add: htmlTemplate_def tag_names(1,2))
  have "ejsScan d None ?t2 = Some (escapeXML (priceInArabic d) @ templateTail)"
    by (simp add: ejsScan_tag [OF tag_names(4)] tag_names(6) ejsScan_text_end [OF noTagOpen_tail])
  then have "ejsScan d None (templateMiddle @ ?t2) =
      Some (templateMiddle @ escapeXML (priceInArabic d) @ templateTail)"
    by (simp add: ejsScan_text [OF noTagOpen_middle ne(2)])
  then have "ejsScan d None ?t1 =
      Some (escapeXML (imageUrl d) @ templateMiddle @ escapeXML (priceInArabic d) @ templateTail)"
    by (simp add: ejsScan_tag [OF tag_names(3)] tag_names(5))
  then show ?thesis
    unfolding ejsRender_def t by (simp add: ejsScan_text [OF noTagOpen_head ne(1)])
qed

lemma escapeXML_plain: "\<forall>c \<in> set s. escapeChar c = [c] \<Longrightarrow> escapeXML s = s"
  by (induction s) (simp_all add: escapeXML_def)

lemma escapeChar_plain:
  "c \<noteq> 0x26 \<Longrightarrow> c \<noteq> 0x3C \<Longrightarrow> c \<noteq> 0x3E \<Longrightarrow> c \<noteq> 0x22 \<Longrightarrow> c \<noteq> 0x27 \<Longrightarrow> escapeChar c = [c]"
  by (simp add: escapeChar_def)

lemma twoDecimals_chars:
  "c \<in> set (twoDecimals x) \<Longrightarrow> isDecimalDigit c \<or> c = 0x2E \<or> c = 0x2D"
  by (auto simp add: twoDecimals_def Let_def of_ascii_def isDecimalDigit_westernDigits
      dest: decimalDigits_all_digits split: if_splits)

lemma escapeChar_price:
  assumes "isDecimalDigit c \<or> c = 0x2E \<or> c = 0x2D"
  shows "escapeChar (replaceDigit c) = [replaceDigit c]"
proof (cases "isDecimalDigit c")
  case True
  then show ?thesis
    by (auto simp add: isDecimalDigit_iff replaceDigit_digit escapeChar_def)
next
  case False
  with assms show ?thesis
    by (auto simp add: replaceDigit_other escapeChar_def)
qed

lemma escapeXML_price:
  "escapeXML (convertToArabicDigits (twoDecimals x)) = convertToArabicDigits (twoDecimals x)"
  by (rule escapeXML_plain)
    (auto simp add: convertToArabicDigits_def dest!: twoDecimals_chars intro: escapeChar_price)

lemma productRoute_page_text:
  assumes "i < length pd" and "\<bar>current_price (pd ! i)\<bar> < 10 ^ 21"
  shows "status (productRoute nts pd (decimalDigits i)) = 200
    \<and> bodyText (body (productRoute nts pd (decimalDigits i))) =
        Some (templateHead
          @ escapeXML (of_ascii ''/images/'' @ productCode (pd ! i)
              @ (case variation_suffix (pd ! i) of
                   Val s \<Rightarrow> (if s = [] then [] else of_ascii ''_'' @ s) | _ \<Rightarrow> [])
              @ of_ascii ''.jpg'')
          @ templateMiddle
          @ convertToArabicDigits (twoDecimals (current_price (pd ! i)))
          @ templateTail)"
proof -
  have "productRoute nts pd (decimalDigits i) = productPage nts (pd ! i)"
    using assms(1) by (intro productRoute_in_range parseInt_decimalDigits)
  then show ?thesis
    using assms(2)
    by (simp add: productPage_def Let_def toFixed2_twoDecimals imageFileName_cases
        ejsRender_htmlTemplate escapeXML_price)
qed

lemma productRoute_page_text_sample:
  "bodyText (body (productRoute exNumberToString [exB, exX1] (of_ascii ''1''))) =
     Some (templateHead @ of_ascii ''/images/X1.jpg'' @ templateMiddle
           @ [0x661, 0x669, 0x2E, 0x669, 0x660] @ templateTail)"
proof -
  have d: "decimalDigits 1 = of_ascii ''1''"
    by (simp add: decimalDigits_small westernDigits_eq of_ascii_def)
  have p: "1 < length [exB, exX1]" "\<bar>current_price ([exB, exX1] ! 1)\<bar> < 10 ^ 21"
    by (simp_all add: exX1_def)
  have a: "convertToArabicDigits (of_ascii ''19.90'') = [0x661, 0x669, 0x2E, 0x669, 0x660]"
    by (simp add: convertToArabicDigits_def of_ascii_def replaceDigit_digit replaceDigit_other
        isDecimalDigit_iff)
  have t: "twoDecimals (current_price exX1) = of_ascii ''19.90''"
    by (simp add: exX1_def twoDecimals_samples)
  have "productCode exX1 = of_ascii ''X1''" "variation_suffix exX1 = Undefined"
    by (simp_all add: exX1_def)
  with productRoute_page_text [OF p, of exNumberToString] show ?thesis
    unfolding d by (simp add: t a) (simp add: escapeXML_def escapeChar_def of_ascii_def)
qed

lemma decimalDigits_times10:
  assumes "0 < n"
  shows "decimalDigits (n * 10) = decimalDigits n @ [0x30]"
proof -
  from assms have "10 \<le> n * 10" by simp
  then show ?thesis
    by (simp add: decimalDigits_step westernDigits_eq)
qed

lemma decimalDigits_pow10: "decimalDigits (10 ^ k) = 0x31 # replicate k 0x30"
proof (induction k)
  case 0
  show ?case by (simp add: decimalDigits_small westernDigits_eq)
next
  case (Suc k)
  have "decimalDigits (10 ^ k * 10) = decimalDigits (10 ^ k) @ [0x30]"
    by (rule decimalDigits_times10) simp
  with Suc show ?case
    by (simp add: mult.commute replicate_append_same)
qed

lemma twoDecimals_huge:
  "twoDecimals (10 ^ 21) = of_ascii ''1000000000000000000000.00''"
proof -
  have "\<lfloor>\<bar>10 ^ 21 :: rat\<bar> * 100 + 1 / 2\<rfloor> = 10 ^ 23"
    by (simp add: floor_eq_iff)
  then have n: "nat \<lfloor>\<bar>10 ^ 21 :: rat\<bar> * 100 + 1 / 2\<rfloor> = 10 ^ 23"
    by simp
  have r: "0x31 # replicate 21 (0x30 :: jschar) = of_ascii ''1000000000000000000000''"
    by (simp add: numeral_eq_Suc of_ascii_def)
  have "decimalDigits (10 ^ 21) = 0x31 # replicate 21 0x30"
    by (rule decimalDigits_pow10)
  then have d: "decimalDigits (10 ^ 23 div 100) = of_ascii ''1000000000000000000000''"
    unfolding r by simp
  have w: "westernDigits ! (10 ^ 23 div 10 mod 10) = 0x30" "westernDigits ! (10 ^ 23 mod 10) = 0x30"
    by (simp_all add: westernDigits_eq)
  show ?thesis
    unfolding twoDecimals_def n Let_def d w
    by (simp add: of_ascii_def)
qed

text \<open>
  Claim C5.  For a valid index the route answers with status 200 and the page that embeds
  the image path and the Arabic-digit rendering of the price with two decimal places; the
  comment of index.js 181 says the same of the code (format the price with two decimal
  places).  \<open>productRoute_page_text\<close> shows it for every price of magnitude below \<open>10^21\<close>.
  At the price \<^verbatim>\<open>1e21\<close> the code does otherwise: the request for index 0 of the collection
  \<open>[exHuge]\<close> is answered with status 200 and a page whose price text is the Arabic-digit
  rendering of \<^verbatim>\<open>1e+21\<close>, while the price with two decimal places is
  \<^verbatim>\<open>1000000000000000000000.00\<close>.
\<close>

theorem productRoute_huge_price:
  "status (productRoute exNumberToString [exHuge] (of_ascii ''0'')) = 200
   \<and> bodyText (body (productRoute exNumberToString [exHuge] (of_ascii ''0''))) =
       Some (templateHead @ of_ascii ''/images/H.jpg'' @ templateMiddle
             @ convertToArabicDigits (of_ascii ''1e+21'') @ templateTail)
   \<and> twoDecimals (current_price exHuge) = of_ascii ''1000000000000000000000.00''
   \<and> convertToArabicDigits (of_ascii ''1e+21'') \<noteq>
       convertToArabicDigits (twoDecimals (current_price exHuge))"
proof -
  have r: "productRoute exNumberToString [exHuge] (of_ascii ''0'') =
      productPage exNumberToString exHuge"
    by (simp add: productRoute_def parseInt_samples)
  have f: "toFixed2 exNumberToString (current_price exHuge) = of_ascii ''1e+21''"
    by (simp add: toFixed2_def exHuge_def exNumberToString_def)
  have a: "convertToArabicDigits (of_ascii ''1e+21'') = [0x661, 0x65, 0x2B, 0x662, 0x661]"
    by (simp add: convertToArabicDigits_def of_ascii_def replaceDigit_digit replaceDigit_other
        isDecimalDigit_iff)
  have e: "escapeXML [0x661, 0x65, 0x2B, 0x662, 0x661] = [0x661, 0x65, 0x2B, 0x662, 0x661]"
    "escapeXML (of_ascii ''/images/H.jpg'') = of_ascii ''/images/H.jpg''"
    by (simp_all add: escapeXML_def escapeChar_def of_ascii_def)
  have i: "of_ascii ''/images/'' @ imageFileName exHuge = of_ascii ''/images/H.jpg''"
    by (simp add: imageFileName_cases exHuge_def of_ascii_def)
  have c: "current_price exHuge = 10 ^ 21"
    by (simp add: exHuge_def)
  have t: "twoDecimals (current_price exHuge) = of_ascii ''1000000000000000000000.00''"
    unfolding c by (rule twoDecimals_huge)
  have "length (convertToArabicDigits (of_ascii ''1e+21'')) \<noteq>
      length (convertToArabicDigits (twoDecimals (current_price exHuge)))"
    unfolding t by (simp add: convertToArabicDigits_def of_ascii_def)
  then have ne: "convertToArabicDigits (of_ascii ''1e+21'') \<noteq>
      convertToArabicDigits (twoDecimals (current_price exHuge))"
    by auto
  have "bodyText (body (productRoute exNumberToString [exHuge] (of_ascii ''0''))) =
       Some (templateHead @ of_ascii ''/images/H.jpg'' @ templateMiddle
             @ convertToArabicDigits (of_ascii ''1e+21'') @ templateTail)"
    unfolding r by (simp add: productPage_def Let_def f i ejsRender_htmlTemplate e a)
  moreover have "status (productRoute exNumberToString [exHuge] (of_ascii ''0'')) = 200"
    unfolding r by (simp add: productPage_def Let_def)
  ultimately show ?thesis using t ne by blast
qed

text \<open>
  Claim C6, amended.  When the index parameter parses to no number, or to a number that is
  negative or not below the length of the collection, the route answers with status 404 and
  the text \<^verbatim>\<open>Product not found\<close> as its body, not with a page.  This covers the decimal
  numeral of every \<open>n\<close> from the length of the collection on, the numeral of every positive
  \<open>n\<close> behind a minus sign, the empty parameter and every parameter whose first code unit
  is neither white space, nor a sign, nor a digit.
\<close>

theorem productRoute_not_found:
  "(parseInt param = None \<or> (\<exists>i. parseInt param = Some i \<and> (i < 0 \<or> int (length pd) \<le> i))
      \<longrightarrow> productRoute nts pd param =
            \<lparr>status = 404, body = Text (of_ascii ''Product not found'')\<rparr>)
   \<and> (length pd \<le> n \<longrightarrow> productRoute nts pd (decimalDigits n) =
            \<lparr>status = 404, body = Text (of_ascii ''Product not found'')\<rparr>)
   \<and> (0 < n \<longrightarrow> productRoute nts pd (0x2D # decimalDigits n) =
            \<lparr>status = 404, body = Text (of_ascii ''Product not found'')\<rparr>)
   \<and> (param = [] \<or> (\<not> isWhiteSpace (hd param) \<and> hd param \<noteq> 0x2B \<and> hd param \<noteq> 0x2D
          \<and> \<not> isDecimalDigit (hd param))
      \<longrightarrow> productRoute nts pd param =
            \<lparr>status = 404, body = Text (of_ascii ''Product not found'')\<rparr>)"
proof (intro conjI impI)
  assume "parseInt param = None \<or> (\<exists>i. parseInt param = Some i \<and> (i < 0 \<or> int (length pd) \<le> i))"
  then show "productRoute nts pd param =
      \<lparr>status = 404, body = Text (of_ascii ''Product not found'')\<rparr>"
    by (intro productRoute_notFound) blast
next
  assume "length pd \<le> n"
  then have "\<exists>i. parseInt (decimalDigits n) = Some i \<and> (i < 0 \<or> int (length pd) \<le> i)"
    by (simp add: parseInt_decimalDigits)
  then show "productRoute nts pd (decimalDigits n) =
      \<lparr>status = 404, body = Text (of_ascii ''Product not found'')\<rparr>"
    by (intro productRoute_notFound) blast
next
  assume n: "0 < n"
  have a: "\<forall>c \<in> set (decimalDigits n). isDecimalDigit c"
    using decimalDigits_all_digits by blast
  have "parseInt (0x2D # decimalDigits n @ []) = Some (- int (radixValue 10 (decimalDigits n)))"
    using a digits_no_hex_prefix [OF a]
    by (intro parseInt_minus_decimal_prefix) (simp_all add: decimalDigits_nonempty)
  with n have "\<exists>i. parseInt (0x2D # decimalDigits n) = Some i \<and> (i < 0 \<or> int (length pd) \<le> i)"
    by (simp add: radixValue_decimalDigits)
  then show "productRoute nts pd (0x2D # decimalDigits n) =
      \<lparr>status = 404, body = Text (of_ascii ''Product not found'')\<rparr>"
    by (intro productRoute_notFound) blast
next
  assume "param = [] \<or> (\<not> isWhiteSpace (hd param) \<and> hd param \<noteq> 0x2B \<and> hd param \<noteq> 0x2D
          \<and> \<not> isDecimalDigit (hd param))"
  then have "parseInt param = None" by (rule parseInt_non_numeric)
  then have "parseInt param = None
      \<or> (\<exists>i. parseInt param = Some i \<and> (i < 0 \<or> int (length pd) \<le> i))"
    by simp
  then show "productRoute nts pd param =
      \<lparr>status = 404, body = Text (of_ascii ''Product not found'')\<rparr>"
    by (intro productRoute_notFound) blast
qed

theorem productRoute_not_found_witness:
  "productRoute exNumberToString exData (of_ascii ''7'') =
      \<lparr>status = 404, body = Text (of_ascii ''Product not found'')\<rparr>
   \<and> productRoute exNumberToString exData (of_ascii ''-1'') =
      \<lparr>status = 404, body = Text (of_ascii ''Product not found'')\<rparr>
   \<and> productRoute exNumberToString exData (of_ascii ''abc'') =
      \<lparr>status = 404, body = Text (of_ascii ''Product not found'')\<rparr>
   \<and> productRoute exNumberToString exData [] =
      \<lparr>status = 404, body = Text (of_ascii ''Product not found'')\<rparr>"
proof -
  have d: "decimalDigits 7 = of_ascii ''7''" "0x2D # decimalDigits 1 = of_ascii ''-1''"
    by (simp_all add: decimalDigits_small westernDigits_eq of_ascii_def)
  have l: "length exData \<le> 7" "0 < (1 :: nat)" by (simp_all add: exData_def)
  have h: "\<not> isWhiteSpace (hd (of_ascii ''abc'')) \<and> hd (of_ascii ''abc'') \<noteq> 0x2B
      \<and> hd (of_ascii ''abc'') \<noteq> 0x2D \<and> \<not> isDecimalDigit (hd (of_ascii ''abc''))"
    by (simp add: of_ascii_def isWhiteSpace_def whiteSpaceChars_def isDecimalDigit_iff)
  have p: "parseInt (of_ascii ''abc'') = None" by (rule parseInt_samples)
  from productRoute_not_found [of "of_ascii ''abc''" exData exNumberToString 7] l(1) p h
  have "productRoute exNumberToString exData (of_ascii ''7'') =
      \<lparr>status = 404, body = Text (of_ascii ''Product not found'')\<rparr>"
    and "productRoute exNumberToString exData (of_ascii ''abc'') =
      \<lparr>status = 404, body = Text (of_ascii ''Product not found'')\<rparr>"
    unfolding d by blast+
  moreover from productRoute_not_found [of "[]" exData exNumberToString 1] l(2)
  have "productRoute exNumberToString exData (of_ascii ''-1'') =
      \<lparr>status = 404, body = Text (of_ascii ''Product not found'')\<rparr>"
    and "productRoute exNumberToString exData [] =
      \<lparr>status = 404, body = Text (of_ascii ''Product not found'')\<rparr>"
    unfolding d by blast+
  ultimately show ?thesis by blast
qed

text \<open>
  The claim as it was stated has no body content in the answer; the body is the text
  \<^verbatim>\<open>Product not found\<close>.
\<close>

theorem productRoute_not_found_body_counterexample:
  "status (productRoute exNumberToString exData (of_ascii ''abc'')) = 404
   \<and> body (productRoute exNumberToString exData (of_ascii ''abc'')) =
       Text (of_ascii ''Product not found'')
   \<and> body (productRoute exNumberToString exData (of_ascii ''abc'')) \<noteq> Text []"
  by (simp add: productRoute_def parseInt_samples notFound_def) (simp add: of_ascii_def)

text \<open>
  Claim C10, amended.  When the index parameter begins with a sequence of decimal digits
  that ends at the end of the parameter or before a code unit that is no decimal digit, the
  parameter does not begin with \<^verbatim>\<open>0x\<close> or \<^verbatim>\<open>0X\<close>, and the number \<open>i\<close> that the sequence
  denotes is below the length of the collection, then the route serves the page of the
  record at position \<open>i\<close>, whatever follows the digits.
\<close>

theorem productRoute_numeric_prefix:
  assumes "ds \<noteq> []" and "\<forall>c \<in> set ds. isDecimalDigit c"
    and "rest = [] \<or> \<not> isDecimalDigit (hd rest)"
    and "\<not> hasHexPrefix (ds @ rest)"
    and "radixValue 10 ds < length pd"
  shows "productRoute nts pd (ds @ rest) = productPage nts (pd ! radixValue 10 ds)"
proof -
  have "parseInt (ds @ rest) = Some (int (radixValue 10 ds))"
    using assms(1-4) by (rule parseInt_decimal_prefix)
  then show ?thesis
    using assms(5) by (rule productRoute_in_range)
qed

theorem productRoute_numeric_prefix_witness:
  "productRoute exNumberToString [exA, exA, exA, exA, exA, exB] (of_ascii ''5abc'') =
     productPage exNumberToString exB"
proof -
  have s: "of_ascii ''5abc'' = of_ascii ''5'' @ of_ascii ''abc''"
    by (simp add: of_ascii_def)
  have v: "radixValue 10 (of_ascii ''5'') = 5"
    by (simp add: radixValue_def of_ascii_def radixDigit_def radixDigitTable_eq)
  have h: "of_ascii ''5'' \<noteq> []" "\<forall>c \<in> set (of_ascii ''5''). isDecimalDigit c"
    "of_ascii ''abc'' = [] \<or> \<not> isDecimalDigit (hd (of_ascii ''abc''))"
    "\<not> hasHexPrefix (of_ascii ''5'' @ of_ascii ''abc'')"
    "radixValue 10 (of_ascii ''5'') < length [exA, exA, exA, exA, exA, exB]"
    unfolding v by (simp_all add: of_ascii_def isDecimalDigit_iff hasHexPrefix_def)
  from productRoute_numeric_prefix [OF h, of exNumberToString] show ?thesis
    unfolding v s by simp
qed

text \<open>
  The claim as it was stated fails for a parameter that begins with \<^verbatim>\<open>0x\<close>: the leading
  decimal digits of \<^verbatim>\<open>0x1\<close> are \<^verbatim>\<open>0\<close>, but the parameter is read in radix 16 and the page of
  the record at position 1 is served, not that of position 0.
\<close>

theorem productRoute_hex_prefix_counterexample:
  "productRoute exNumberToString exData (of_ascii ''0x1'') = productPage exNumberToString exB
   \<and> productRoute exNumberToString exData (of_ascii ''0x1'') \<noteq>
       productPage exNumberToString (exData ! 0)"
proof -
  have "productRoute exNumberToString exData (of_ascii ''0x1'') =
      productPage exNumberToString exB"
    by (simp add: productRoute_def parseInt_samples exData_def)
  moreover have "productPage exNumberToString exB \<noteq> productPage exNumberToString (exData ! 0)"
    by (simp add: productPage_def exData_def imageFileName_cases exA_def exB_def Let_def
        of_ascii_def)
  ultimately show ?thesis by simp
qed

section \<open>The work partitioner\<close>

lemma groupSize_Suc:
  assumes "g < K"
  shows "groupSize (Suc N) K g = groupSize N K g + (if N mod K = g then 1 else 0)"
proof (cases "Suc (N mod K) = K")
  case True
  then have "Suc N mod K = 0" "Suc N div K = Suc (N div K)"
    by (simp_all add: mod_Suc div_Suc)
  with True assms show ?thesis
    by (auto simp add: groupSize_def)
next
  case False
  then have "Suc N mod K = Suc (N mod K)" "Suc N div K = N div K"
    by (simp_all add: mod_Suc div_Suc)
  with assms show ?thesis
    by (auto simp add: groupSize_def)
qed

lemma filter_mod_upt:
  assumes "g < K"
  shows "filter (\<lambda>j. j mod K = g) [0 ..< N] = map (\<lambda>q. q * K + g) [0 ..< groupSize N K g]"
proof (induction N)
  case 0
  then show ?case by (simp add: groupSize_def)
next
  case (Suc N)
  show ?case
  proof (cases "N mod K = g")
    case True
    then have "g < N mod K \<longleftrightarrow> False" by simp
    then have "groupSize N K g = N div K" by (simp add: groupSize_def)
    then have "groupSize N K g * K + g = N"
      using True by (metis div_mult_mod_eq)
    with True Suc show ?thesis
      by (simp add: groupSize_Suc [OF assms])
  next
    case False
    with Suc show ?thesis
      by (simp add: groupSize_Suc [OF assms])
  qed
qed

lemma groupOf_eq:
  "g < K \<Longrightarrow> groupOf K xs g = map (\<lambda>q. xs ! (q * K + g)) [0 ..< groupSize (length xs) K g]"
  by (simp add: groupOf_def filter_mod_upt comp_def)

lemma groupOf_length: "g < K \<Longrightarrow> length (groupOf K xs g) = groupSize (length xs) K g"
  by (simp add: groupOf_eq)

lemma groupSize_differ: "groupSize N K g \<le> groupSize N K h + 1"
  by (simp add: groupSize_def)

lemma position_in_group:
  assumes "i < N" and "0 < K"
  shows "i div K < groupSize N K (i mod K)"
proof (cases "i div K < N div K")
  case True
  then show ?thesis by (simp add: groupSize_def)
next
  case False
  moreover have "i div K \<le> N div K"
    using assms(1) by (intro div_le_mono) simp
  ultimately have eq: "i div K = N div K" by simp
  have "i div K * K + i mod K < N div K * K + N mod K"
    using assms(1) by (simp only: div_mult_mod_eq)
  then have "N div K * K + i mod K < N div K * K + N mod K"
    by (simp only: eq)
  then have "i mod K < N mod K" by (simp only: add_less_cancel_left)
  with eq show ?thesis by (simp add: groupSize_def)
qed

lemma groupOf_position:
  assumes "i < length xs" and "0 < K"
  shows "i div K < length (groupOf K xs (i mod K)) \<and> groupOf K xs (i mod K) ! (i div K) = xs ! i"
proof -
  from assms(2) have g: "i mod K < K" by simp
  have p: "i div K < groupSize (length xs) K (i mod K)"
    using assms by (rule position_in_group)
  then show ?thesis
    by (simp add: groupOf_eq [OF g])
qed

lemma chunkLoop_annotate:
  "chunkLoop pd K i (item # rest) chunks =
     chunkLoop pd K (Suc i) rest (chunks[i mod K := chunks ! (i mod K) @ [annotate pd item]])"
  by (simp add: annotate_def)

lemma chunkLoop_length: "length (chunkLoop pd K i xs chunks) = length chunks"
  by (induction xs arbitrary: i chunks) simp_all

lemma chunkLoop_group:
  assumes "g < K" and "length chunks = K"
  shows "chunkLoop pd K i xs chunks ! g =
    chunks ! g @ map (annotate pd)
      (map snd (filter (\<lambda>e. fst e mod K = g) (zip [i ..< i + length xs] xs)))"
  using assms(2)
proof (induction xs arbitrary: i chunks)
  case Nil
  then show ?case by simp
next
  case (Cons item rest)
  let ?chunks = "chunks[i mod K := chunks ! (i mod K) @ [annotate pd item]]"
  have len: "length ?chunks = K" using Cons.prems by simp
  have "i < i + length (item # rest)" by simp
  then have "[i ..< i + length (item # rest)] = i # [Suc i ..< i + length (item # rest)]"
    by (rule upt_conv_Cons)
  then have up: "[i ..< i + length (item # rest)] = i # [Suc i ..< Suc i + length rest]"
    by simp
  have here: "?chunks ! g = chunks ! g @ (if i mod K = g then [annotate pd item] else [])"
    using assms(1) Cons.prems by (auto simp add: nth_list_update)
  show ?case
    unfolding chunkLoop_annotate Cons.IH [OF len] up here by simp
qed

lemma zip_upt_filter:
  "map snd (filter (\<lambda>e. P (fst e)) (zip [0 ..< length xs] xs)) =
     map (\<lambda>j. xs ! j) (filter P [0 ..< length xs])"
proof -
  have "zip [0 ..< length xs] xs = map (\<lambda>j. (j, xs ! j)) [0 ..< length xs]"
    by (rule nth_equalityI) simp_all
  then show ?thesis
    by (simp add: filter_map comp_def)
qed

lemma chunkArray_groups:
  assumes "0 < K"
  shows "chunkArray pd arr K = Inr (map (\<lambda>g. map (annotate pd) (groupOf K arr g)) [0 ..< K])"
proof -
  let ?r = "chunkLoop pd K 0 arr (replicate K [])"
  have "?r = map (\<lambda>g. map (annotate pd) (groupOf K arr g)) [0 ..< K]"
  proof (rule nth_equalityI)
    show "length ?r = length (map (\<lambda>g. map (annotate pd) (groupOf K arr g)) [0 ..< K])"
      by (simp add: chunkLoop_length)
  next
    fix g assume "g < length ?r"
    then have g: "g < K" by (simp add: chunkLoop_length)
    have "?r ! g = replicate K [] ! g @ map (annotate pd)
        (map snd (filter (\<lambda>e. fst e mod K = g) (zip [0 ..< 0 + length arr] arr)))"
      using g by (intro chunkLoop_group) simp_all
    also have "\<dots> = map (annotate pd) (groupOf K arr g)"
      using g zip_upt_filter [of "\<lambda>j. j mod K = g" arr] by (simp add: groupOf_def)
    finally show "?r ! g = map (\<lambda>g. map (annotate pd) (groupOf K arr g)) [0 ..< K] ! g"
      using g by simp
  qed
  with assms show ?thesis by (simp add: chunkArray_def)
qed

lemma transpose_unfold:
  "transpose xss =
    (if \<forall>xs \<in> set xss. xs = [] then []
     else map hd (filter (\<lambda>xs. xs \<noteq> []) xss) # transpose (map tl (filter (\<lambda>xs. xs \<noteq> []) xss)))"
proof (induction xss rule: transpose.induct)
  case 1
  show ?case by simp
next
  case (2 xss)
  then show ?case by simp
next
  case (3 x xs xss)
  show ?case
    by (simp add: transpose_aux_filter_head transpose_aux_filter_tail)
qed

lemma groupSize_short:
  "N < K \<Longrightarrow> groupSize N K g = (if g < N then 1 else 0)"
  by (simp add: groupSize_def)

lemma groupSize_long:
  assumes "K \<le> N" and "0 < K"
  shows "groupSize N K g = Suc (groupSize (N - K) K g)"
  using assms by (simp add: groupSize_def le_div_geq le_mod_geq)

lemma groupOf_short:
  assumes "length xs < K" and "g < K"
  shows "groupOf K xs g = (if g < length xs then [xs ! g] else [])"
  using assms by (simp add: groupOf_eq groupSize_short)

lemma groupOf_long:
  assumes "K \<le> length xs" and "g < K"
  shows "groupOf K xs g = xs ! g # groupOf K (drop K xs) g"
proof -
  from assms have K: "0 < K" by simp
  let ?c = "groupSize (length xs - K) K g"
  have "groupOf K xs g = map (\<lambda>q. xs ! (q * K + g)) [0 ..< Suc ?c]"
    using assms K by (simp add: groupOf_eq groupSize_long)
  also have "[0 ..< Suc ?c] = 0 # map Suc [0 ..< ?c]"
    by (simp add: upt_conv_Cons map_Suc_upt)
  also have "map (\<lambda>q. xs ! (q * K + g)) (0 # map Suc [0 ..< ?c]) =
      xs ! g # map (\<lambda>q. xs ! (K + (q * K + g))) [0 ..< ?c]"
    by (simp add: comp_def add.assoc)
  also have "map (\<lambda>q. xs ! (K + (q * K + g))) [0 ..< ?c] = groupOf K (drop K xs) g"
    using assms by (simp add: groupOf_eq)
  finally show ?thesis .
qed

lemma map_nth_take: "K \<le> length xs \<Longrightarrow> map (\<lambda>g. xs ! g) [0 ..< K] = take K xs"
  by (rule nth_equalityI) simp_all

lemma roundRobinMerge_groups:
  assumes "0 < K"
  shows "roundRobinMerge (map (groupOf K xs) [0 ..< K]) = xs"
proof (induction "length xs" arbitrary: xs rule: less_induct)
  case less
  let ?rows = "map (groupOf K xs) [0 ..< K]"
  show ?case
  proof (cases "K \<le> length xs")
    case True
    have rows: "?rows = map (\<lambda>g. xs ! g # groupOf K (drop K xs) g) [0 ..< K]"
      using True by (simp add: groupOf_long)
    then have ne: "filter (\<lambda>r. r \<noteq> []) ?rows = ?rows"
      by simp
    have some: "\<not> (\<forall>r \<in> set ?rows. r = [])"
      using assms unfolding rows by auto
    have hd: "map hd ?rows = take K xs"
      unfolding rows using True by (simp add: comp_def map_nth_take)
    have tl: "map tl ?rows = map (groupOf K (drop K xs)) [0 ..< K]"
      unfolding rows by (simp add: comp_def)
    have "length (drop K xs) < length xs"
      using True assms by simp
    then have IH: "roundRobinMerge (map (groupOf K (drop K xs)) [0 ..< K]) = drop K xs"
      by (rule less)
    have "transpose ?rows = take K xs # transpose (map (groupOf K (drop K xs)) [0 ..< K])"
      using some by (subst transpose_unfold) (simp only: ne hd tl if_False)
    then show ?thesis
      using IH by (simp add: roundRobinMerge_def)
  next
    case False
    then have short: "length xs < K" by simp
    have split: "[0 ..< K] = [0 ..< length xs] @ [length xs ..< K]"
      using short by (metis le_add_diff_inverse less_imp_le_nat upt_add_eq_append zero_le)
    have first: "map (groupOf K xs) [0 ..< length xs] = map (\<lambda>g. [xs ! g]) [0 ..< length xs]"
      using short by (simp add: groupOf_short)
    have second: "map (groupOf K xs) [length xs ..< K] = map (\<lambda>g. []) [length xs ..< K]"
      using short by (simp add: groupOf_short)
    have rows: "?rows = map (\<lambda>g. [xs ! g]) [0 ..< length xs] @ map (\<lambda>g. []) [length xs ..< K]"
      unfolding split map_append first second ..
    have ne: "filter (\<lambda>r. r \<noteq> []) ?rows = map (\<lambda>g. [xs ! g]) [0 ..< length xs]"
      unfolding rows by (simp add: filter_map comp_def)
    show ?thesis
    proof (cases "xs = []")
      case True
      then have "\<forall>r \<in> set ?rows. r = []"
        unfolding rows by simp
      then have "transpose ?rows = []"
        by (simp only: transpose_empty)
      with True show ?thesis by (simp add: roundRobinMerge_def)
    next
      case False
      then have "[xs ! 0] \<in> set ?rows"
        unfolding rows by (auto intro!: image_eqI [where x = 0])
      then have some: "\<not> (\<forall>r \<in> set ?rows. r = [])"
        by blast
      have hd: "map hd (filter (\<lambda>r. r \<noteq> []) ?rows) = xs"
        unfolding ne by (simp add: comp_def map_nth)
      have "\<forall>r \<in> set (map tl (filter (\<lambda>r. r \<noteq> []) ?rows)). r = []"
        unfolding ne by simp
      then have tl: "transpose (map tl (filter (\<lambda>r. r \<noteq> []) ?rows)) = []"
        by (simp only: transpose_empty)
      have "transpose ?rows = [xs]"
        using some by (subst transpose_unfold) (simp only: hd tl if_False)
      then show ?thesis by (simp add: roundRobinMerge_def)
    qed
  qed
qed

lemma product_annotate: "map product (map (annotate pd) xs) = xs"
  by (simp add: comp_def annotate_def)

lemma roundRobinMerge_map:
  "roundRobinMerge (map (map f) xss) = map f (roundRobinMerge xss)"
  by (simp add: roundRobinMerge_def transpose_map_map map_concat)

lemma chunkArray_exData4: "chunkArray exData4 [exB, exC, exX1] 2 = Inr exChunks"
  by (simp add: chunkArray_def exChunks_def exData4_def findIndex_def matchesItem_def
      exA_def exB_def exC_def exX1_def of_ascii_def numeral_2_eq_2)

lemma findIndexFrom_found:
  assumes "x \<in> set xs" and "P x"
  shows "\<exists>n < length xs. findIndexFrom P k xs = int (k + n) \<and> P (xs ! n)
    \<and> (\<forall>m < n. \<not> P (xs ! m))"
  using assms
proof (induction xs arbitrary: k)
  case Nil
  then show ?case by simp
next
  case (Cons y ys)
  show ?case
  proof (cases "P y")
    case True
    then show ?thesis by (intro exI [of _ 0]) simp
  next
    case False
    with Cons.prems have "x \<in> set ys" by auto
    from Cons.IH [OF this Cons.prems(2), of "Suc k"]
    obtain n where n: "n < length ys" "findIndexFrom P (Suc k) ys = int (Suc k + n)"
      "P (ys ! n)" "\<forall>m < n. \<not> P (ys ! m)"
      by blast
    have "\<forall>m < Suc n. \<not> P ((y # ys) ! m)"
      using False n(4) by (simp add: nth_Cons split: nat.split)
    with False n show ?thesis
      by (intro exI [of _ "Suc n"]) simp
  qed
qed

lemma findIndex_found:
  assumes "x \<in> set xs" and "P x"
  shows "\<exists>n < length xs. findIndex P xs = int n \<and> P (xs ! n) \<and> (\<forall>m < n. \<not> P (xs ! m))"
  using findIndexFrom_found [of x xs P 0] assms by (simp add: findIndex_def)

lemma matchesItem_refl: "matchesItem p p"
  by (simp add: matchesItem_def)

text \<open>
  The key test spelled out: the suffixes are equal, or each of them is missing, \<^verbatim>\<open>null\<close> or
  the empty string.
\<close>

lemma matchesItem_iff:
  "matchesItem item p \<longleftrightarrow>
     productCode p = productCode item
     \<and> (variation_suffix p = variation_suffix item
          \<or> (variation_suffix p \<in> {Undefined, Null, Val []}
              \<and> variation_suffix item \<in> {Undefined, Null, Val []}))"
  by (cases "variation_suffix p"; cases "variation_suffix item")
    (auto simp add: matchesItem_def truthy_def)

lemma groupOf_subset: "set (groupOf K xs g) \<subseteq> set xs"
  by (auto simp add: groupOf_def)

lemma chunkArray_items:
  assumes "chunkArray pd arr K = Inr chunks" and "g < length chunks" and "w \<in> set (chunks ! g)"
  shows "\<exists>item \<in> set arr. w = annotate pd item"
proof (cases "K = 0")
  case True
  with assms(1) have "chunks = []"
    by (simp add: chunkArray_def split: if_splits)
  with assms(2) show ?thesis by simp
next
  case False
  then have "chunkArray pd arr K = Inr (map (\<lambda>g. map (annotate pd) (groupOf K arr g)) [0 ..< K])"
    by (intro chunkArray_groups) simp
  with assms(1) have c: "chunks = map (\<lambda>g. map (annotate pd) (groupOf K arr g)) [0 ..< K]"
    by simp
  with assms(2) have "chunks ! g = map (annotate pd) (groupOf K arr g)"
    by simp
  with assms(3) groupOf_subset [of K arr g] show ?thesis
    by auto
qed

text \<open>
  Claim C3.  For every list and every number \<open>K \<ge> 1\<close> of workers (so in particular for
  \<open>1 \<le> K \<le> N\<close>), the partitioner returns exactly \<open>K\<close> groups; group \<open>g\<close> holds the items
  at the positions \<open>j\<close> with \<open>j mod K = g\<close>, in their order in the list; the sizes of any two
  groups differ by one at most; the item at position \<open>i\<close> is the item \<open>i div K\<close> of group
  \<open>i mod K\<close>; and merging the groups by round-robin gives the list back.
\<close>

theorem chunkArray_round_robin:
  assumes "1 \<le> K"
  shows "\<exists>chunks. chunkArray pd arr K = Inr chunks \<and> length chunks = K
     \<and> (\<forall>g < K. map product (chunks ! g) =
           map (\<lambda>j. arr ! j) (filter (\<lambda>j. j mod K = g) [0 ..< length arr]))
     \<and> (\<forall>g < K. \<forall>h < K. length (chunks ! g) \<le> length (chunks ! h) + 1)
     \<and> (\<forall>i < length arr. i div K < length (chunks ! (i mod K))
           \<and> product (chunks ! (i mod K) ! (i div K)) = arr ! i)
     \<and> map product (roundRobinMerge chunks) = arr"
proof -
  from assms have K: "0 < K" by simp
  let ?chunks = "map (\<lambda>g. map (annotate pd) (groupOf K arr g)) [0 ..< K]"
  have res: "chunkArray pd arr K = Inr ?chunks"
    using K by (rule chunkArray_groups)
  have nth: "?chunks ! g = map (annotate pd) (groupOf K arr g)" if "g < K" for g
    using that by simp
  have groups: "map product (?chunks ! g) =
      map (\<lambda>j. arr ! j) (filter (\<lambda>j. j mod K = g) [0 ..< length arr])" if "g < K" for g
    unfolding nth [OF that] product_annotate by (simp add: groupOf_def)
  have sizes: "length (?chunks ! g) \<le> length (?chunks ! h) + 1" if "g < K" "h < K" for g h
    unfolding nth [OF that(1)] nth [OF that(2)]
    using that groupSize_differ [of "length arr" K g h] by (simp add: groupOf_length)
  have pos: "i div K < length (?chunks ! (i mod K))
      \<and> product (?chunks ! (i mod K) ! (i div K)) = arr ! i" if "i < length arr" for i
  proof -
    from K have g: "i mod K < K" by simp
    from groupOf_position [OF that K] show ?thesis
      unfolding nth [OF g] by (simp add: annotate_def)
  qed
  have "?chunks = map (map (annotate pd)) (map (groupOf K arr) [0 ..< K])"
    by simp
  then have "map product (roundRobinMerge ?chunks) =
      map product (map (annotate pd) (roundRobinMerge (map (groupOf K arr) [0 ..< K])))"
    by (simp only: roundRobinMerge_map)
  then have merge: "map product (roundRobinMerge ?chunks) = arr"
    unfolding product_annotate roundRobinMerge_groups [OF K] .
  show ?thesis
    using res groups sizes pos merge by (intro exI [of _ ?chunks]) simp
qed

theorem chunkArray_round_robin_witness:
  "chunkArray exData4 [exB, exC, exX1] 2 = Inr exChunks
   \<and> length exChunks = 2
   \<and> map product (exChunks ! 0) = [exB, exX1] \<and> map product (exChunks ! 1) = [exC]
   \<and> map product (roundRobinMerge exChunks) = [exB, exC, exX1]"
proof -
  have k: "1 \<le> (2 :: nat)" by simp
  from chunkArray_round_robin [OF k, of exData4 "[exB, exC, exX1]"]
  have "map product (roundRobinMerge exChunks) = [exB, exC, exX1]"
    unfolding chunkArray_exData4 by simp
  then show ?thesis
    using chunkArray_exData4 by (simp add: exChunks_def)
qed

lemma matchesItem_key:
  "matchesItem item p \<longleftrightarrow> identityKeyOrEmpty p = identityKeyOrEmpty item"
  by (cases "variation_suffix p"; cases "variation_suffix item")
    (auto simp add: matchesItem_def truthy_def identityKeyOrEmpty_def)

lemma pending_suffix_samples:
  "productsToProcess [exRed, exBlue] = [exRed, exBlue]"
  "productsToProcess [exEmptySuffix, exNullSuffix] = [exEmptySuffix, exNullSuffix]"
  by (simp_all add: productsToProcess_def needsImage_def strictNotEqual_def exRed_def exBlue_def
      exEmptySuffix_def exNullSuffix_def)

lemma chunkArray_suffix_samples:
  "chunkArray [exRed, exBlue] [exRed, exBlue] 1 =
     Inr [[\<lparr>index = 0, product = exRed\<rparr>, \<lparr>index = 1, product = exBlue\<rparr>]]"
  "chunkArray [exEmptySuffix, exNullSuffix] [exEmptySuffix, exNullSuffix] 1 =
     Inr [[\<lparr>index = 0, product = exEmptySuffix\<rparr>, \<lparr>index = 0, product = exNullSuffix\<rparr>]]"
  by (simp_all add: chunkArray_def findIndex_def matchesItem_def truthy_def exRed_def exBlue_def
      exEmptySuffix_def exNullSuffix_def of_ascii_def)

text \<open>
  Claim C8, amended.  Every work item that the partitioner produces from the pending
  records of a collection carries an index that is a position of the collection, and the
  record there has the identity key of the item, absent and empty suffixes being treated as
  equal.  When the identity keys of the collection, so taken, are unique, the record at the
  index is the item and the index is the only position that holds it.
\<close>

theorem chunkArray_original_index:
  assumes "chunkArray pd (productsToProcess pd) K = Inr chunks"
    and "g < length chunks" and "w \<in> set (chunks ! g)"
  shows "0 \<le> index w \<and> index w < int (length pd)
    \<and> identityKeyOrEmpty (pd ! nat (index w)) = identityKeyOrEmpty (product w)
    \<and> (distinct (map identityKeyOrEmpty pd) \<longrightarrow>
         pd ! nat (index w) = product w
         \<and> (\<forall>j < length pd. pd ! j = product w \<longrightarrow> j = nat (index w)))"
proof -
  from chunkArray_items [OF assms]
  obtain item where item: "item \<in> set (productsToProcess pd)" "w = annotate pd item"
    by blast
  then have mem: "item \<in> set pd" by (simp add: productsToProcess_def)
  from findIndex_found [of item pd "matchesItem item"] mem matchesItem_refl
  obtain n where n: "n < length pd" "findIndex (matchesItem item) pd = int n"
    "matchesItem item (pd ! n)"
    by blast
  have w: "index w = int n" "product w = item"
    using item(2) n(2) by (simp_all add: annotate_def)
  have key: "identityKeyOrEmpty (pd ! n) = identityKeyOrEmpty item"
    using n(3) by (simp only: matchesItem_key)
  have unique: "pd ! n = item \<and> (\<forall>j < length pd. pd ! j = item \<longrightarrow> j = n)"
    if d: "distinct (map identityKeyOrEmpty pd)"
  proof -
    have same: "j = n" if "j < length pd" "identityKeyOrEmpty (pd ! j) = identityKeyOrEmpty item" for j
    proof -
      from that key n(1) have "map identityKeyOrEmpty pd ! j = map identityKeyOrEmpty pd ! n"
        by simp
      moreover have "j < length (map identityKeyOrEmpty pd)" "n < length (map identityKeyOrEmpty pd)"
        using that(1) n(1) by simp_all
      ultimately show ?thesis
        using d nth_eq_iff_index_eq by blast
    qed
    from mem obtain k where k: "k < length pd" "pd ! k = item"
      by (auto simp add: in_set_conv_nth)
    with same [of k] have here: "pd ! n = item" by simp
    with same show ?thesis by simp
  qed
  have "0 \<le> int n" "int n < int (length pd)"
    "identityKeyOrEmpty (pd ! nat (int n)) = identityKeyOrEmpty item"
    using n(1) key by simp_all
  moreover have "distinct (map identityKeyOrEmpty pd) \<longrightarrow>
      pd ! nat (int n) = item \<and> (\<forall>j < length pd. pd ! j = item \<longrightarrow> j = nat (int n))"
    using unique by (simp only: nat_int) blast
  ultimately show ?thesis
    unfolding w by blast
qed

theorem chunkArray_original_index_witness:
  "chunkArray [exRed, exBlue] (productsToProcess [exRed, exBlue]) 1 =
     Inr [[\<lparr>index = 0, product = exRed\<rparr>, \<lparr>index = 1, product = exBlue\<rparr>]]
   \<and> distinct (map identityKeyOrEmpty [exRed, exBlue])
   \<and> identityKeyOrEmpty ([exRed, exBlue] ! 1) = identityKeyOrEmpty exBlue
   \<and> [exRed, exBlue] ! 1 = exBlue \<and> [exRed, exBlue] ! 0 \<noteq> exBlue"
proof -
  let ?chunks = "[[\<lparr>index = 0, product = exRed\<rparr>, \<lparr>index = 1, product = exBlue\<rparr>]]"
  have c: "chunkArray [exRed, exBlue] (productsToProcess [exRed, exBlue]) 1 = Inr ?chunks"
    unfolding pending_suffix_samples by (rule chunkArray_suffix_samples)
  have g: "0 < length ?chunks" and w: "\<lparr>index = 1, product = exBlue\<rparr> \<in> set (?chunks ! 0)"
    by simp_all
  have d: "distinct (map identityKeyOrEmpty [exRed, exBlue])"
    by (simp add: identityKeyOrEmpty_def exRed_def exBlue_def of_ascii_def)
  from chunkArray_original_index [OF c g w] d
  have "identityKeyOrEmpty ([exRed, exBlue] ! 1) = identityKeyOrEmpty exBlue
      \<and> [exRed, exBlue] ! 1 = exBlue"
    by simp
  moreover have "[exRed, exBlue] ! 0 \<noteq> exBlue"
    by (simp add: exRed_def exBlue_def of_ascii_def)
  ultimately show ?thesis using c d by blast
qed

text \<open>
  The claim as it was stated treats absent suffixes as equal, and no others.  The collection
  of \<open>exEmptySuffix\<close> and \<open>exNullSuffix\<close> has unique identity keys then, but the search
  takes an empty suffix for an absent one: the work item of the record at position 1 gets
  the index 0, of a record with another key.
\<close>

theorem chunkArray_empty_suffix_counterexample:
  "chunkArray [exEmptySuffix, exNullSuffix] (productsToProcess [exEmptySuffix, exNullSuffix]) 1 =
     Inr [[\<lparr>index = 0, product = exEmptySuffix\<rparr>, \<lparr>index = 0, product = exNullSuffix\<rparr>]]
   \<and> distinct (map identityKey [exEmptySuffix, exNullSuffix])
   \<and> identityKey ([exEmptySuffix, exNullSuffix] ! 0) \<noteq> identityKey exNullSuffix
   \<and> [exEmptySuffix, exNullSuffix] ! 0 \<noteq> exNullSuffix
   \<and> [exEmptySuffix, exNullSuffix] ! 1 = exNullSuffix"
proof -
  have "chunkArray [exEmptySuffix, exNullSuffix]
      (productsToProcess [exEmptySuffix, exNullSuffix]) 1 =
     Inr [[\<lparr>index = 0, product = exEmptySuffix\<rparr>, \<lparr>index = 0, product = exNullSuffix\<rparr>]]"
    unfolding pending_suffix_samples by (rule chunkArray_suffix_samples)
  then show ?thesis
    by (simp add: identityKey_def exEmptySuffix_def exNullSuffix_def)
qed

end
